theory Spec2Isabelle
  imports Main "HOL-Library.Word" "HOL-Library.Sublist" "HOL-Library.AList"
begin

section \<open>Strings\<close>

text \<open>
  A JavaScript string is a sequence of 16-bit code units. Regular expressions without the
  \<^verbatim>\<open>u\<close> flag, \<^verbatim>\<open>trim\<close> and \<^verbatim>\<open>===\<close> all work on code units, so the model does too.
  \<open>js\<close> turns an ASCII literal into such a string.
\<close>

type_synonym jsstring = "16 word list"

definition js :: "string \<Rightarrow> jsstring" where
  "js s = map of_char s"

text \<open>
  The white space of the language: the characters \<^verbatim>\<open>\s\<close> matches and \<^verbatim>\<open>trim\<close> removes
  (WhiteSpace and LineTerminator of the language definition).
\<close>

definition is_space :: "16 word \<Rightarrow> bool" where
  "is_space c \<longleftrightarrow>
     c = 0x09 \<or> c = 0x0A \<or> c = 0x0B \<or> c = 0x0C \<or> c = 0x0D \<or> c = 0x20 \<or> c = 0xA0 \<or>
     c = 0x1680 \<or> (0x2000 \<le> c \<and> c \<le> 0x200A) \<or> c = 0x2028 \<or> c = 0x2029 \<or>
     c = 0x202F \<or> c = 0x205F \<or> c = 0x3000 \<or> c = 0xFEFF"

text \<open>\<^verbatim>\<open>\d\<close> is \<^verbatim>\<open>[0-9]\<close>; the quote characters of \<^verbatim>\<open>['"]\<close> are U+0027 and U+0022.\<close>

definition is_digit :: "16 word \<Rightarrow> bool" where
  "is_digit c \<longleftrightarrow> 0x30 \<le> c \<and> c \<le> 0x39"

definition is_quote :: "16 word \<Rightarrow> bool" where
  "is_quote c \<longleftrightarrow> c = 0x27 \<or> c = 0x22"

text \<open>\<^verbatim>\<open>String.prototype.trim\<close>: white space is removed from both ends.\<close>

definition trim :: "jsstring \<Rightarrow> jsstring" where
  "trim s = rev (dropWhile is_space (rev (dropWhile is_space s)))"

text \<open>
  \<^verbatim>\<open>String.prototype.toLowerCase\<close>, code unit by code unit, with the rows of the case table
  for Basic Latin and Latin-1. The rows above U+00FF are not carried (such a code unit is
  left as it is): the program only compares the trimmed result with \<^verbatim>\<open>'y'\<close>, and no
  character there lower-cases to \<^verbatim>\<open>y\<close>, or to or from white space.
\<close>

definition lower_unit :: "16 word \<Rightarrow> 16 word" where
  "lower_unit c =
     (if (0x41 \<le> c \<and> c \<le> 0x5A) \<or> (0xC0 \<le> c \<and> c \<le> 0xDE \<and> c \<noteq> 0xD7) then c + 0x20 else c)"

definition toLowerCase :: "jsstring \<Rightarrow> jsstring" where
  "toLowerCase s = map lower_unit s"

section \<open>Regular expressions\<close>

text \<open>
  The three patterns of the program, \<^verbatim>\<open>/test\(['"]([^'"]+)['"]/g\<close>, \<^verbatim>\<open>/C\d+/\<close> and
  \<^verbatim>\<open>new RegExp(`^${id}\\s*`)\<close>, are sequences of single-character atoms, some under a greedy
  \<^verbatim>\<open>*\<close> or \<^verbatim>\<open>+\<close>, with an optional \<^verbatim>\<open>^\<close>. A pattern is a list of items; \<open>rx_match\<close> is the
  backtracking matcher at one position: a quantified atom first takes as many characters as
  it can and gives them back one by one while the rest of the pattern fails. The flag says
  whether the position is the start of the input (where \<^verbatim>\<open>^\<close> holds; there is no \<^verbatim>\<open>m\<close> flag).
  The result is the text matched by each item, in order, and the input left after the match.
\<close>

datatype cls = Lit "16 word" | Space | Digit | Quote | NotQuote

fun sat :: "cls \<Rightarrow> 16 word \<Rightarrow> bool" where
  "sat (Lit d) c = (c = d)"
| "sat Space c = is_space c"
| "sat Digit c = is_digit c"
| "sat Quote c = is_quote c"
| "sat NotQuote c = (\<not> is_quote c)"

datatype item = Bol | One cls | Star cls | Plus cls

fun rx_match :: "item list \<Rightarrow> bool \<Rightarrow> jsstring \<Rightarrow> (jsstring list \<times> jsstring) option" where
  "rx_match [] b s = Some ([], s)"
| "rx_match (Bol # p) b s =
     (if b then map_option (\<lambda>(gs, r). ([] # gs, r)) (rx_match p b s) else None)"
| "rx_match (One a # p) b [] = None"
| "rx_match (One a # p) b (c # cs) =
     (if sat a c then map_option (\<lambda>(gs, r). ([c] # gs, r)) (rx_match p False cs) else None)"
| "rx_match (Star a # p) b [] = map_option (\<lambda>(gs, r). ([] # gs, r)) (rx_match p b [])"
| "rx_match (Star a # p) b (c # cs) =
     (if sat a c
      then (case rx_match (Star a # p) False cs of
              Some (g # gs, r) \<Rightarrow> Some ((c # g) # gs, r)
            | _ \<Rightarrow> map_option (\<lambda>(gs, r). ([] # gs, r)) (rx_match p b (c # cs)))
      else map_option (\<lambda>(gs, r). ([] # gs, r)) (rx_match p b (c # cs)))"
| "rx_match (Plus a # p) b [] = None"
| "rx_match (Plus a # p) b (c # cs) =
     (if sat a c
      then (case rx_match (Star a # p) False cs of
              Some (g # gs, r) \<Rightarrow> Some ((c # g) # gs, r)
            | _ \<Rightarrow> None)
      else None)"

text \<open>
  \<open>rx_exec\<close> looks for the first position at which the pattern matches, from the front of
  the given input on. It returns the text skipped before the match, the matched items and
  the input after the match.
\<close>

fun rx_exec :: "item list \<Rightarrow> bool \<Rightarrow> jsstring \<Rightarrow> (jsstring \<times> jsstring list \<times> jsstring) option" where
  "rx_exec p b [] = map_option (\<lambda>(gs, r). ([], gs, r)) (rx_match p b [])"
| "rx_exec p b (c # cs) =
     (case rx_match p b (c # cs) of
        Some (gs, r) \<Rightarrow> Some ([], gs, r)
      | None \<Rightarrow> map_option (\<lambda>(pre, gs, r). (c # pre, gs, r)) (rx_exec p False cs))"

text \<open>A word of the pattern source that stands for itself, character by character.\<close>

definition lits :: "jsstring \<Rightarrow> item list" where
  "lits w = map (\<lambda>c. One (Lit c)) w"

section \<open>Identifiers and the title normalizer\<close>

text \<open>An identifier is \<^verbatim>\<open>C\<close> followed by one or more decimal digits.\<close>

fun is_identifier :: "jsstring \<Rightarrow> bool" where
  "is_identifier [] = False"
| "is_identifier (c # ds) = (c = 0x43 \<and> ds \<noteq> [] \<and> list_all is_digit ds)"

text \<open>
  \<^verbatim>\<open>cleanTestCaseTitle(title, id)\<close> is
  \<^verbatim>\<open>title.replace(new RegExp(`^${id}\\s*`), '').trim()\<close>. The identifier becomes part of
  the pattern source; an identifier (a \<^verbatim>\<open>C\<close> and digits) has no character that is special
  there, so it stands for itself. \<^verbatim>\<open>replace\<close> with a pattern that has no \<^verbatim>\<open>g\<close> flag replaces
  the first match only, and leaves the string as it is when there is none.
\<close>

definition cleanTestCaseTitle :: "jsstring \<Rightarrow> jsstring \<Rightarrow> jsstring" where
  "cleanTestCaseTitle title ident =
     trim (case rx_exec (Bol # lits ident @ [Star Space]) True title of
             None \<Rightarrow> title
           | Some (pre, gs, r) \<Rightarrow> pre @ r)"

section \<open>The title extractor\<close>

record CaseRecord =
  title :: jsstring
  originalTitle :: jsstring
  filePath :: jsstring

text \<open>
  The case table is a \<^verbatim>\<open>Map\<close>: it keeps its keys in the order of their first insertion, and
  \<^verbatim>\<open>set\<close> on a key that is present replaces the value where it stands. \<open>AList.update\<close> is
  that operation on a list of pairs.
\<close>

type_synonym CaseTable = "(jsstring \<times> CaseRecord) list"

text \<open>
  \<^verbatim>\<open>/test\(['"]([^'"]+)['"]/g\<close>. A match has eight items: the five characters of \<^verbatim>\<open>test(\<close>,
  the quote, the group and the quote; the group is item number 6, counted from 0.
\<close>

definition testRegex :: "item list" where
  "testRegex = lits (js ''test('') @ [One Quote, Plus NotQuote, One Quote]"

text \<open>\<^verbatim>\<open>testTitle.match(/C\d+/)?.[0]\<close>: the first match as a whole, if there is one.\<close>

definition findTestId :: "jsstring \<Rightarrow> jsstring option" where
  "findTestId testTitle =
     (case rx_exec [One (Lit 0x43), Plus Digit] True testTitle of
        None \<Rightarrow> None
      | Some (pre, gs, r) \<Rightarrow> Some (concat gs))"

text \<open>
  The loop \<^verbatim>\<open>while ((testMatch = testRegex.exec(content)) !== null) { ... }\<close>. The pattern
  object keeps \<^verbatim>\<open>lastIndex\<close>, so each \<^verbatim>\<open>exec\<close> goes on where the match before ended: the loop
  carries the input that is left. \<open>body\<close> is what the loop does with \<^verbatim>\<open>testMatch[1]\<close>.
\<close>

function forEachTestMatch ::
  "(jsstring \<Rightarrow> 'a \<Rightarrow> 'a) \<Rightarrow> bool \<Rightarrow> jsstring \<Rightarrow> 'a \<Rightarrow> 'a" where
  "forEachTestMatch body b content acc =
     (case rx_exec testRegex b content of
        None \<Rightarrow> acc
      | Some (pre, gs, r) \<Rightarrow> forEachTestMatch body False r (body (gs ! 6) acc))"
  by pat_completeness auto
termination
proof (relation "measure (\<lambda>(body, b, content, acc). length content)")
  show "wf (measure (\<lambda>(body :: jsstring \<Rightarrow> 'a \<Rightarrow> 'a, b :: bool, content :: jsstring, acc :: 'a).
    length content))"
    by simp
next
  fix body :: "jsstring \<Rightarrow> 'a \<Rightarrow> 'a" and b content and acc :: 'a and x2 pre y gs r
  assume ex: "rx_exec testRegex b content = Some x2" and x2: "(pre, y) = x2" and y: "(gs, r) = y"
  have m: "rx_match p b' s = Some (gs', r') \<Longrightarrow> length r' \<le> length s" for p b' s gs' r'
  proof (induction p b' s arbitrary: gs' r' rule: rx_match.induct)
    case (6 a p b c cs)
    then show ?case
      by (fastforce split: if_splits option.splits prod.splits list.splits)
  next
    case (8 a p b c cs)
    then show ?case
      by (fastforce split: if_splits option.splits prod.splits list.splits)
  qed (fastforce split: if_splits)+
  have e: "rx_exec (One a # p) b' s = Some (pre', gs', r') \<Longrightarrow> length r' < length s"
    for a p b' s pre' gs' r'
  proof (induction s arbitrary: b' pre')
    case Nil
    then show ?case by simp
  next
    case (Cons c cs)
    show ?case
    proof (cases "rx_match (One a # p) b' (c # cs)")
      case None
      with Cons.prems obtain pre'' where "rx_exec (One a # p) False cs = Some (pre'', gs', r')"
        by auto
      from Cons.IH [OF this] show ?thesis by simp
    next
      case (Some z)
      with Cons.prems have "rx_match (One a # p) b' (c # cs) = Some (gs', r')"
        by (cases z) simp
      then obtain gs'' where "rx_match p False cs = Some (gs'', r')"
        by (auto split: if_splits)
      from m [OF this] show ?thesis by simp
    qed
  qed
  have "testRegex = One (Lit 0x74) # tl testRegex"
    by (simp add: testRegex_def lits_def js_def)
  with ex x2 y e [of "Lit 0x74" "tl testRegex" b content pre gs r]
  have "length r < length content" by auto
  then show "((body, False, r, body (gs ! 6) acc), body, b, content, acc)
    \<in> measure (\<lambda>(body, b, content, acc). length content)"
    by simp
qed

declare forEachTestMatch.simps [simp del]

text \<open>
  \<^verbatim>\<open>analyzeTestFile\<close>. The path relative to the working directory and the result of reading
  the file (\<open>None\<close> when \<^verbatim>\<open>readFileSync\<close> throws) are the parameters; an unreadable file gives
  an empty table.
\<close>

definition registerTestCase :: "jsstring \<Rightarrow> jsstring \<Rightarrow> CaseTable \<Rightarrow> CaseTable" where
  "registerTestCase relativePath testTitle testCases =
     (case findTestId testTitle of
        None \<Rightarrow> testCases
      | Some testId \<Rightarrow>
          AList.update testId
            \<lparr>title = cleanTestCaseTitle testTitle testId, originalTitle = testTitle,
              filePath = relativePath\<rparr>
            testCases)"

definition analyzeTestFile :: "jsstring \<Rightarrow> jsstring option \<Rightarrow> CaseTable" where
  "analyzeTestFile relativePath file =
     (case file of
        None \<Rightarrow> []
      | Some content \<Rightarrow> forEachTestMatch (registerTestCase relativePath) True content [])"

text \<open>
  The loop of \<^verbatim>\<open>main\<close> over the test files: every entry of every file's table is set in
  \<^verbatim>\<open>allTestCases\<close>, file after file.
\<close>

definition collectTestCases :: "(jsstring \<times> jsstring option) list \<Rightarrow> CaseTable" where
  "collectTestCases testFiles =
     fold (\<lambda>(relativePath, file) allTestCases.
             fold (\<lambda>(ident, data) m. AList.update ident data m)
               (analyzeTestFile relativePath file) allTestCases)
       testFiles []"

text \<open>
  The literals the extractor's loop sees, in order: in one text, and in a list of files
  (each with the path of its file).
\<close>

definition testTitles :: "jsstring \<Rightarrow> jsstring list" where
  "testTitles content = forEachTestMatch (\<lambda>t ts. ts @ [t]) True content []"

definition matchedLiterals :: "(jsstring \<times> jsstring option) list \<Rightarrow> (jsstring \<times> jsstring) list" where
  "matchedLiterals testFiles =
     concat (map (\<lambda>(relativePath, file).
                    case file of None \<Rightarrow> [] | Some content \<Rightarrow> map (Pair relativePath) (testTitles content))
               testFiles)"

text \<open>
  The entries that a list of literals has to give: one for each literal with an identifier
  in it, in order.
\<close>

definition tableEntries :: "jsstring \<Rightarrow> jsstring list \<Rightarrow> CaseTable" where
  "tableEntries relativePath ts =
     concat (map (\<lambda>t. case findTestId t of
                         None \<Rightarrow> []
                       | Some testId \<Rightarrow>
                           [(testId, \<lparr>title = cleanTestCaseTitle t testId, originalTitle = t,
                                      filePath = relativePath\<rparr>)])
               ts)"

text \<open>The entries that the literals of one file have to give.\<close>

definition fileEntries :: "jsstring \<times> jsstring option \<Rightarrow> CaseTable" where
  "fileEntries f = (case f of (relativePath, file) \<Rightarrow>
     case file of None \<Rightarrow> [] | Some content \<Rightarrow> tableEntries relativePath (testTitles content))"

text \<open>
  A text with its occurrences of \<^verbatim>\<open>test(\<close>, a quote, a literal, a quote set apart: each
  segment is the text before an occurrence, the opening quote, the literal and the closing
  quote. The literal holds no quote character (it may be empty), and the text before an
  occurrence holds no \<^verbatim>\<open>test(\<close> with a quote character right after it.
\<close>

definition opens_literal :: "jsstring \<Rightarrow> bool" where
  "opens_literal s \<longleftrightarrow> rx_match (lits (js ''test('') @ [One Quote]) False s \<noteq> None"

fun no_opening :: "jsstring \<Rightarrow> bool" where
  "no_opening [] = True"
| "no_opening (c # cs) = (\<not> opens_literal (c # cs) \<and> no_opening cs)"

type_synonym segment = "jsstring \<times> 16 word \<times> jsstring \<times> 16 word"

definition occurrence :: "segment \<Rightarrow> jsstring" where
  "occurrence seg = (case seg of (before, q, t, q') \<Rightarrow> before @ js ''test('' @ [q] @ t @ [q'])"

definition literal :: "segment \<Rightarrow> jsstring" where
  "literal seg = (case seg of (before, q, t, q') \<Rightarrow> t)"

definition well_formed :: "segment \<Rightarrow> bool" where
  "well_formed seg =
     (case seg of (before, q, t, q') \<Rightarrow>
        no_opening before \<and> is_quote q \<and> is_quote q' \<and> list_all (\<lambda>c. \<not> is_quote c) t)"

definition text_of :: "segment list \<Rightarrow> jsstring \<Rightarrow> jsstring" where
  "text_of segs rest = concat (map occurrence segs) @ rest"

section \<open>The remote service\<close>

text \<open>
  \<^verbatim>\<open>makeApiCall\<close> returns the body of the response or throws; what \<^verbatim>\<open>getTestRailCase\<close> reads
  of the error is \<^verbatim>\<open>error.response?.status\<close>. The body of a list request is an array, or an
  object with the list under \<^verbatim>\<open>cases\<close> or \<^verbatim>\<open>projects\<close> and with \<^verbatim>\<open>_links.next\<close>; a field that is
  absent (or not truthy) is \<open>None\<close>, and \<open>links_next\<close> says whether \<^verbatim>\<open>_links?.next\<close> is truthy.
\<close>

datatype api_error = ApiError (status: "nat option")

datatype 'a response =
  ArrayBody "'a list"
| ObjectBody (cases_field: "'a list option") (projects_field: "'a list option") (links_next: bool)

text \<open>\<^verbatim>\<open>Array.isArray(response) ? response : response.cases || response.projects || []\<close>\<close>

fun items_of :: "'a response \<Rightarrow> 'a list" where
  "items_of (ArrayBody xs) = xs"
| "items_of (ObjectBody (Some xs) ps n) = xs"
| "items_of (ObjectBody None (Some ys) n) = ys"
| "items_of (ObjectBody None None n) = []"

text \<open>\<^verbatim>\<open>response._links?.next\<close>: an array has no \<^verbatim>\<open>_links\<close>.\<close>

fun has_next :: "'a response \<Rightarrow> bool" where
  "has_next (ArrayBody xs) = False"
| "has_next (ObjectBody cs ps n) = n"

text \<open>
  The loop of \<^verbatim>\<open>makeApiCallWithPagination\<close>. \<open>fetch\<close> is the service's answer to the request
  for the endpoint with the given \<^verbatim>\<open>limit\<close> at an offset. The loop has no bound of its own:
  \<open>None\<close> is the run that never leaves it. \<open>requests\<close> records the offsets asked for, in
  order; a call that throws ends the loop with the error.
\<close>

partial_function (option) paginate ::
  "(nat \<Rightarrow> api_error + 'a response) \<Rightarrow> nat \<Rightarrow> nat \<Rightarrow> nat list \<Rightarrow> 'a list
    \<Rightarrow> (nat list \<times> (api_error + 'a list)) option" where
  "paginate fetch limit offset requests allResults =
     (case fetch offset of
        Inl error \<Rightarrow> Some (requests @ [offset], Inl error)
      | Inr response \<Rightarrow>
          (if \<not> has_next response \<or> length (items_of response) < limit
           then Some (requests @ [offset], Inr (allResults @ items_of response))
           else paginate fetch limit (offset + limit) (requests @ [offset])
                  (allResults @ items_of response)))"

definition makeApiCallWithPagination ::
  "(nat \<Rightarrow> api_error + 'a response) \<Rightarrow> nat \<Rightarrow> (nat list \<times> (api_error + 'a list)) option" where
  "makeApiCallWithPagination fetch limit = paginate fetch limit 0 [] []"

text \<open>The items of the page at an offset (none when the call throws).\<close>

definition page :: "(nat \<Rightarrow> api_error + 'a response) \<Rightarrow> nat \<Rightarrow> 'a list" where
  "page fetch offset = (case fetch offset of Inl e \<Rightarrow> [] | Inr response \<Rightarrow> items_of response)"

definition continues :: "(nat \<Rightarrow> api_error + 'a response) \<Rightarrow> nat \<Rightarrow> nat \<Rightarrow> bool" where
  "continues fetch limit offset =
     (case fetch offset of
        Inl e \<Rightarrow> False
      | Inr response \<Rightarrow> has_next response \<and> limit \<le> length (items_of response))"

definition last_page :: "(nat \<Rightarrow> api_error + 'a response) \<Rightarrow> nat \<Rightarrow> nat \<Rightarrow> bool" where
  "last_page fetch limit offset =
     (case fetch offset of
        Inl e \<Rightarrow> False
      | Inr response \<Rightarrow> \<not> has_next response \<or> length (items_of response) < limit)"

text \<open>A service that answers a request for one item with two and a next-page link.\<close>

definition oversized_pages :: "nat \<Rightarrow> api_error + nat response" where
  "oversized_pages offset =
     (if offset = 0 then Inr (ObjectBody (Some [1, 2]) None True)
      else Inr (ObjectBody (Some [3]) None False))"

text \<open>A service with three pages of two, two and one items for a limit of two.\<close>

definition three_pages :: "nat \<Rightarrow> api_error + nat response" where
  "three_pages offset =
     (if offset = 0 then Inr (ObjectBody (Some [1, 2]) None True)
      else if offset = 2 then Inr (ObjectBody (Some [3, 4]) None True)
      else Inr (ObjectBody (Some [5]) None True))"

record RemoteCase =
  case_id :: nat
  case_title :: jsstring

record ProjectInfo =
  project_id :: nat
  suites :: "nat list"

text \<open>
  The service as the program uses it: \<^verbatim>\<open>get_case/${caseId}\<close>, the pages of
  \<^verbatim>\<open>get_cases/${project_id}&suite_id=${suite.id}\<close> (limit 250), and \<^verbatim>\<open>update_case/${caseId}\<close>
  with a title, whose answer is truthy or not.
\<close>

record service =
  get_case :: "jsstring \<Rightarrow> api_error + RemoteCase"
  get_cases :: "nat \<Rightarrow> nat \<Rightarrow> nat \<Rightarrow> api_error + RemoteCase response"
  update_case :: "jsstring \<Rightarrow> jsstring \<Rightarrow> api_error + bool"

text \<open>\<^verbatim>\<open>c.id.toString()\<close>: the decimal digits of a case's number.\<close>

fun toString :: "nat \<Rightarrow> jsstring" where
  "toString n = (if n < 10 then [of_nat (48 + n)] else toString (n div 10) @ [of_nat (48 + n mod 10)])"

text \<open>
  \<^verbatim>\<open>getTestRailCase\<close>. The outer \<open>option\<close> is \<open>None\<close> when a pagination never ends; \<open>Some None\<close>
  is the \<^verbatim>\<open>null\<close> the function returns when the case cannot be had. After a status 400 the
  suites are searched in order; a suite whose listing throws is passed over.
\<close>

fun searchSuites :: "service \<Rightarrow> jsstring \<Rightarrow> ProjectInfo \<Rightarrow> nat list \<Rightarrow> RemoteCase option option" where
  "searchSuites srv caseId projectInfo [] = Some None"
| "searchSuites srv caseId projectInfo (suite # rest) =
     (case makeApiCallWithPagination (get_cases srv (project_id projectInfo) suite) 250 of
        None \<Rightarrow> None
      | Some (requests, Inl innerError) \<Rightarrow> searchSuites srv caseId projectInfo rest
      | Some (requests, Inr cases) \<Rightarrow>
          (case find (\<lambda>c. toString (case_id c) = caseId) cases of
             Some foundCase \<Rightarrow> Some (Some foundCase)
           | None \<Rightarrow> searchSuites srv caseId projectInfo rest))"

definition getTestRailCase :: "service \<Rightarrow> jsstring \<Rightarrow> ProjectInfo \<Rightarrow> RemoteCase option option" where
  "getTestRailCase srv caseId projectInfo =
     (case get_case srv caseId of
        Inr response \<Rightarrow> Some (Some response)
      | Inl error \<Rightarrow>
          (if status error = Some 400
           then searchSuites srv caseId projectInfo (suites projectInfo)
           else Some None))"

section \<open>Comparison and update\<close>

record Difference =
  id_d :: jsstring
  caseNumber :: jsstring
  filePath_d :: jsstring
  fileTitle :: jsstring
  fileOriginalTitle :: jsstring
  testRailTitle :: jsstring
  testRailCleanTitle :: jsstring

record LookupError =
  id_e :: jsstring
  filePath_e :: jsstring
  fileTitle_e :: jsstring

text \<open>
  The two objects that the comparison pushes: the entry of \<^verbatim>\<open>errors\<close> for a case, and the
  entry of \<^verbatim>\<open>differences\<close> for a case and the remote case found for it.
  \<^verbatim>\<open>testId.replace('C', '')\<close> takes the first \<^verbatim>\<open>C\<close> out.
\<close>

definition errorOf :: "jsstring \<times> CaseRecord \<Rightarrow> LookupError" where
  "errorOf entry =
     (case entry of (testId, fileData) \<Rightarrow>
        \<lparr>id_e = testId, filePath_e = filePath fileData, fileTitle_e = title fileData\<rparr>)"

definition differenceOf :: "jsstring \<times> CaseRecord \<Rightarrow> RemoteCase \<Rightarrow> Difference" where
  "differenceOf entry testRailCase =
     (case entry of (testId, fileData) \<Rightarrow>
        \<lparr>id_d = testId, caseNumber = remove1 0x43 testId,
          filePath_d = filePath fileData, fileTitle = title fileData,
          fileOriginalTitle = originalTitle fileData,
          testRailTitle = case_title testRailCase,
          testRailCleanTitle = cleanTestCaseTitle (case_title testRailCase) testId\<rparr>)"

text \<open>
  The lookup of the loop: \<^verbatim>\<open>getTestRailCase(testId.replace('C', ''), projectInfo, credentials)\<close>.
\<close>

definition lookupCase :: "service \<Rightarrow> ProjectInfo \<Rightarrow> jsstring \<Rightarrow> RemoteCase option option" where
  "lookupCase srv projectInfo testId = getTestRailCase srv (remove1 0x43 testId) projectInfo"

text \<open>
  The body of the loop \<^verbatim>\<open>for (const [testId, fileData] of allTestCases)\<close> in \<^verbatim>\<open>main\<close>, on the
  lists \<^verbatim>\<open>differences\<close> and \<^verbatim>\<open>errors\<close>: a case whose lookup gives \<^verbatim>\<open>null\<close> goes to the
  errors and the loop continues; otherwise the remote title is cleaned with the identifier
  of the case and compared with the title of the file by \<^verbatim>\<open>!==\<close>.
\<close>

definition compareCase ::
  "service \<Rightarrow> ProjectInfo \<Rightarrow> jsstring \<times> CaseRecord \<Rightarrow> Difference list \<times> LookupError list
    \<Rightarrow> (Difference list \<times> LookupError list) option" where
  "compareCase srv projectInfo entry st =
     (case entry of (testId, fileData) \<Rightarrow>
      case st of (differences, errors) \<Rightarrow>
      (case lookupCase srv projectInfo testId of
         None \<Rightarrow> None
       | Some None \<Rightarrow> Some (differences, errors @ [errorOf (testId, fileData)])
       | Some (Some testRailCase) \<Rightarrow>
           (if cleanTestCaseTitle (case_title testRailCase) testId \<noteq> title fileData
            then Some (differences @ [differenceOf (testId, fileData) testRailCase], errors)
            else Some (differences, errors))))"

text \<open>What one case adds to the differences, and what it adds to the errors.\<close>

definition diffsOf :: "service \<Rightarrow> ProjectInfo \<Rightarrow> jsstring \<times> CaseRecord \<Rightarrow> Difference list" where
  "diffsOf srv projectInfo entry =
     (case lookupCase srv projectInfo (fst entry) of
        Some (Some testRailCase) \<Rightarrow>
          if cleanTestCaseTitle (case_title testRailCase) (fst entry) \<noteq> title (snd entry)
          then [differenceOf entry testRailCase] else []
      | _ \<Rightarrow> [])"

definition errsOf :: "service \<Rightarrow> ProjectInfo \<Rightarrow> jsstring \<times> CaseRecord \<Rightarrow> LookupError list" where
  "errsOf srv projectInfo entry =
     (case lookupCase srv projectInfo (fst entry) of Some None \<Rightarrow> [errorOf entry] | _ \<Rightarrow> [])"

fun compareAll ::
  "service \<Rightarrow> ProjectInfo \<Rightarrow> CaseTable \<Rightarrow> Difference list \<times> LookupError list
    \<Rightarrow> (Difference list \<times> LookupError list) option" where
  "compareAll srv projectInfo [] st = Some st"
| "compareAll srv projectInfo (entry # rest) st =
     (case compareCase srv projectInfo entry st of
        None \<Rightarrow> None
      | Some st' \<Rightarrow> compareAll srv projectInfo rest st')"

text \<open>\<^verbatim>\<open>askForConfirmation\<close> resolves to \<^verbatim>\<open>answer.toLowerCase().trim() === 'y'\<close>.\<close>

definition askForConfirmation :: "jsstring \<Rightarrow> bool" where
  "askForConfirmation answer \<longleftrightarrow> trim (toLowerCase answer) = js ''y''"

text \<open>
  \<^verbatim>\<open>updateTestRailCase\<close> returns the answer of the service, or \<^verbatim>\<open>null\<close> when the call throws;
  \<^verbatim>\<open>main\<close> only looks at whether the result is truthy.
\<close>

definition updateTestRailCase :: "service \<Rightarrow> jsstring \<Rightarrow> jsstring \<Rightarrow> bool" where
  "updateTestRailCase srv caseId newTitle =
     (case update_case srv caseId newTitle of Inl error \<Rightarrow> False | Inr response \<Rightarrow> response)"

record UpdateReport =
  prompted :: bool
  updateCalls :: "(jsstring \<times> jsstring) list"
  successCount :: nat
  failCount :: nat

text \<open>
  The end of \<^verbatim>\<open>main\<close>: with differences the operator is asked once, and on a confirmation
  every difference is sent to the service with the title of the file. \<open>updateCalls\<close> records
  the calls of \<^verbatim>\<open>updateTestRailCase\<close>, in order.
\<close>

definition updateStep :: "service \<Rightarrow> Difference \<Rightarrow> UpdateReport \<Rightarrow> UpdateReport" where
  "updateStep srv diff rep =
     (if updateTestRailCase srv (caseNumber diff) (fileTitle diff)
      then rep\<lparr>updateCalls := updateCalls rep @ [(caseNumber diff, fileTitle diff)],
               successCount := successCount rep + 1\<rparr>
      else rep\<lparr>updateCalls := updateCalls rep @ [(caseNumber diff, fileTitle diff)],
               failCount := failCount rep + 1\<rparr>)"

definition updatePhase :: "service \<Rightarrow> jsstring \<Rightarrow> Difference list \<Rightarrow> UpdateReport" where
  "updatePhase srv answer differences =
     (if differences \<noteq> []
      then (if askForConfirmation answer
            then fold (updateStep srv) differences
                   \<lparr>prompted = True, updateCalls = [], successCount = 0, failCount = 0\<rparr>
            else \<lparr>prompted = True, updateCalls = [], successCount = 0, failCount = 0\<rparr>)
      else \<lparr>prompted = False, updateCalls = [], successCount = 0, failCount = 0\<rparr>)"

text \<open>
  \<^verbatim>\<open>main\<close> from the scan of the files on: the case table, the comparison, the update.
\<close>

definition main ::
  "service \<Rightarrow> ProjectInfo \<Rightarrow> (jsstring \<times> jsstring option) list \<Rightarrow> jsstring
    \<Rightarrow> (Difference list \<times> LookupError list \<times> UpdateReport) option" where
  "main srv projectInfo testFiles answer =
     (case compareAll srv projectInfo (collectTestCases testFiles) ([], []) of
        None \<Rightarrow> None
      | Some (differences, errors) \<Rightarrow>
          Some (differences, errors, updatePhase srv answer differences))"

text \<open>
  A service and a project for examples: case 1234 is there; case 77 is refused with status
  400 and is in no suite; every other call of \<^verbatim>\<open>get_case\<close> fails without a response.
\<close>

definition demo_service :: service where
  "demo_service =
     \<lparr>get_case = (\<lambda>caseId.
         if caseId = js ''1234''
         then Inr \<lparr>case_id = 1234, case_title = js ''C1234 Checkout flow v2''\<rparr>
         else if caseId = js ''77'' then Inl (ApiError (Some 400))
         else Inl (ApiError None)),
       get_cases = (\<lambda>project suite offset.
         Inr (ObjectBody (Some [\<lparr>case_id = 5, case_title = js ''C5 Other''\<rparr>]) None False)),
       update_case = (\<lambda>caseId newTitle. Inr True)\<rparr>"

definition demo_project :: ProjectInfo where
  "demo_project = \<lparr>project_id = 1, suites = [10]\<rparr>"

definition demo_table :: CaseTable where
  "demo_table =
     [(js ''C77'', \<lparr>title = js ''Login'', originalTitle = js ''C77 Login'',
                     filePath = js ''a.test.ts''\<rparr>),
      (js ''C1234'', \<lparr>title = js ''Checkout flow'', originalTitle = js ''C1234 Checkout flow'',
                       filePath = js ''a.test.ts''\<rparr>),
      (js ''C9'', \<lparr>title = js ''Logout'', originalTitle = js ''C9 Logout'',
                    filePath = js ''b.test.ts''\<rparr>)]"

section \<open>Facts about the matcher\<close>

lemma rx_match_lits:
  "rx_match (lits w @ p) b s =
     (if prefix w s
      then map_option (\<lambda>(gs, r). (map (\<lambda>c. [c]) w @ gs, r))
             (rx_match p (b \<and> w = []) (drop (length w) s))
      else None)"
proof (induction w arbitrary: b s)
  case Nil
  show ?case by (simp add: lits_def option.map_ident case_prod_unfold)
next
  case (Cons d w)
  have IH: "rx_match (lits w @ p) False cs =
     (if prefix w cs
      then map_option (\<lambda>(gs, r). (map (\<lambda>c. [c]) w @ gs, r))
             (rx_match p False (drop (length w) cs))
      else None)" for cs
  proof (cases "w = []")
    case True
    then show ?thesis by (simp add: lits_def option.map_ident case_prod_unfold)
  next
    case False
    then show ?thesis using Cons.IH [of False cs] by simp
  qed
  show ?case
  proof (cases s)
    case Nil
    then show ?thesis by (simp add: lits_def)
  next
    case (Cons c cs)
    have l: "lits (d # w) @ p = One (Lit d) # (lits w @ p)" by (simp add: lits_def)
    show ?thesis unfolding l Cons
      by (simp add: IH option.map_comp comp_def case_prod_unfold)
  qed
qed

lemma rx_match_Star_last:
  "rx_match [Star a] b s = Some ([takeWhile (sat a) s], dropWhile (sat a) s)"
  by (induction s arbitrary: b) auto

lemma rx_exec_Bol_False: "rx_exec (Bol # p) False s = None"
  by (induction s) auto

lemma rx_exec_Bol_True:
  "rx_exec (Bol # p) True s = map_option (\<lambda>(gs, r). ([], [] # gs, r)) (rx_match p True s)"
  by (cases s)
    (auto simp: rx_exec_Bol_False option.map_comp comp_def case_prod_unfold split: option.splits)

lemma sat_Space: "sat Space = is_space"
  by (rule ext) simp

section \<open>Facts about the normalizer\<close>

text \<open>
  The pattern of the normalizer matches exactly when the identifier is a prefix of the
  title, and then takes the identifier and the white space after it.
\<close>

lemma cleanTestCaseTitle_eq:
  "cleanTestCaseTitle t ident =
     trim (if prefix ident t then dropWhile is_space (drop (length ident) t) else t)"
  by (simp add: cleanTestCaseTitle_def rx_exec_Bol_True rx_match_lits rx_match_Star_last sat_Space)

lemma dropWhile_fixed: "xs = [] \<or> \<not> P (hd xs) \<Longrightarrow> dropWhile P xs = xs"
  by (cases xs) auto

lemma dropWhile_hd: "dropWhile P xs = [] \<or> \<not> P (hd (dropWhile P xs))"
  using hd_dropWhile by blast

lemma trim_ends: "trim s = [] \<or> (\<not> is_space (hd (trim s)) \<and> \<not> is_space (last (trim s)))"
proof (cases "trim s = []")
  case True
  then show ?thesis by simp
next
  case False
  define t where "t = dropWhile is_space s"
  define u where "u = dropWhile is_space (rev t)"
  have ts: "trim s = rev u" by (simp add: trim_def t_def u_def)
  with False have une: "u \<noteq> []" by simp
  have 1: "\<not> is_space (hd u)" using une hd_dropWhile unfolding u_def by blast
  have tne: "t \<noteq> []" using une unfolding u_def by auto
  have 2: "\<not> is_space (hd t)" using tne hd_dropWhile unfolding t_def by blast
  obtain v where v: "rev t = v @ u" unfolding u_def
    by (metis takeWhile_dropWhile_id)
  then have "t = rev u @ rev v" by (metis rev_append rev_rev_ident)
  then have "hd t = hd (rev u)" using une by simp
  with 1 2 une show ?thesis by (simp add: ts last_rev)
qed

lemma trim_fixed: "s = [] \<or> (\<not> is_space (hd s) \<and> \<not> is_space (last s)) \<Longrightarrow> trim s = s"
  unfolding trim_def
  by (cases "s = []") (auto simp: dropWhile_fixed hd_rev)

lemma trim_trim: "trim (trim s) = trim s"
  by (rule trim_fixed) (rule trim_ends)

lemma trim_dropWhile: "trim (dropWhile is_space s) = trim s"
  by (simp add: trim_def dropWhile_fixed dropWhile_hd)

lemma trim_no_trailing:
  assumes "s = [] \<or> \<not> is_space (last s)"
  shows "trim s = dropWhile is_space s"
proof (cases "dropWhile is_space s = []")
  case True
  show ?thesis unfolding trim_def True by simp
next
  case False
  then have sne: "s \<noteq> []" by auto
  have "s = takeWhile is_space s @ dropWhile is_space s" by simp
  then have "last s = last (dropWhile is_space s)" using False by (metis last_appendR)
  with assms sne have "\<not> is_space (hd (rev (dropWhile is_space s)))"
    using False by (simp add: hd_rev)
  then have "dropWhile is_space (rev (dropWhile is_space s)) = rev (dropWhile is_space s)"
    by (simp add: dropWhile_fixed)
  then show ?thesis by (simp add: trim_def)
qed

lemma trim_leading:
  assumes "list_all is_space ws" and "\<not> is_space c" and "\<not> is_space (last (c # s))"
  shows "trim (ws @ c # s) = c # s"
proof -
  have "dropWhile is_space (ws @ c # s) = c # s"
    using assms(1,2) by (simp add: dropWhile_append2 list_all_iff)
  moreover have "hd (rev (c # s)) = last (c # s)" by (rule hd_rev)
  then have "dropWhile is_space (rev (c # s)) = rev (c # s)"
    using assms(3) by (intro dropWhile_fixed) (simp only: not_False_eq_True simp_thms)
  ultimately show ?thesis by (simp add: trim_def)
qed

lemma is_identifier_js: "is_identifier (js ''C12'')" "is_identifier (js ''C1'')"
  "is_identifier (js ''C1234'')"
  by (simp_all add: js_def is_digit_def)

section \<open>The normalizer: claims\<close>

text \<open>
  C2 (as the code has it). For every identifier \<open>ident\<close> (a \<^verbatim>\<open>C\<close> and digits) and every string
  \<open>s\<close>, \<open>cleanTestCaseTitle (ident @ s) ident\<close> is \<open>s\<close> without the white space at its front
  and without the white space at its end: the leading identifier and the white space after
  it are taken away, and so is the white space that ends \<open>s\<close>; what lies between comes back
  as it is. When \<open>s\<close> does not end in white space, the result is \<open>s\<close> after its leading white
  space, code unit for code unit.
\<close>

theorem cleanTestCaseTitle_strips_identifier:
  assumes "is_identifier ident"
  shows "cleanTestCaseTitle (ident @ s) ident = rev (dropWhile is_space (rev (dropWhile is_space s)))
    \<and> (s = [] \<or> \<not> is_space (last s)
        \<longrightarrow> cleanTestCaseTitle (ident @ s) ident = dropWhile is_space s)"
proof -
  have "cleanTestCaseTitle (ident @ s) ident = trim s"
    by (simp add: cleanTestCaseTitle_eq trim_dropWhile)
  then show ?thesis
    using trim_no_trailing [of s] by (auto simp: trim_def)
qed

theorem cleanTestCaseTitle_strips_identifier_witness:
  "is_identifier (js ''C12'')
   \<and> \<not> is_space (last (js ''  Login  works''))
   \<and> cleanTestCaseTitle (js ''C12'' @ js ''  Login  works'') (js ''C12'') = js ''Login  works''"
proof -
  have h: "is_identifier (js ''C12'')" by (rule is_identifier_js)
  have 2: "dropWhile is_space (js ''  Login  works'') = js ''Login  works''"
    by (simp add: js_def is_space_def)
  have 3: "\<not> is_space (last (js ''  Login  works''))"
    by (simp add: js_def is_space_def)
  from cleanTestCaseTitle_strips_identifier [OF h, of "js ''  Login  works''"] 3
  have "cleanTestCaseTitle (js ''C12'' @ js ''  Login  works'') (js ''C12'') =
    dropWhile is_space (js ''  Login  works'')"
    by blast
  with h 2 3 show ?thesis by simp
qed

text \<open>
  C2 as stated fails: with identifier \<^verbatim>\<open>C1\<close> and \<open>s\<close> = \<^verbatim>\<open>" a "\<close>, what is left of \<open>s\<close> after the
  white space that follows the identifier is \<^verbatim>\<open>"a "\<close>, and the function returns \<^verbatim>\<open>"a"\<close>.
\<close>

theorem trailing_space_is_trimmed_too:
  "is_identifier (js ''C1'')
   \<and> dropWhile is_space (js '' a '') = js ''a ''
   \<and> cleanTestCaseTitle (js ''C1'' @ js '' a '') (js ''C1'') = js ''a''
   \<and> cleanTestCaseTitle (js ''C1'' @ js '' a '') (js ''C1'') \<noteq> dropWhile is_space (js '' a '')"
  by code_simp

text \<open>
  C6 (as the code has it). For every identifier \<open>ident\<close> and every non-empty run of white
  space \<open>ws\<close> (two spaces, for one), \<open>cleanTestCaseTitle\<close> of \<open>ws\<close>, the identifier and
  \<^verbatim>\<open>" rest"\<close> is the identifier and \<^verbatim>\<open>" rest"\<close>: the white space before the identifier defeats
  the prefix match, so the identifier is not stripped, and the white space at the front is
  trimmed away.
\<close>

theorem cleanTestCaseTitle_leading_space:
  assumes "is_identifier ident" and "ws \<noteq> []" and "list_all is_space ws"
  shows "cleanTestCaseTitle (ws @ ident @ js '' rest'') ident = ident @ js '' rest''"
proof -
  from assms(1) obtain ds where i: "ident = 0x43 # ds" by (cases ident) auto
  from assms(2,3) obtain w ws' where w: "ws = w # ws'" "is_space w"
    by (cases ws) auto
  have "w \<noteq> 0x43" using w(2) by (auto simp: is_space_def)
  then have np: "\<not> prefix ident (ws @ ident @ js '' rest'')"
    by (simp add: i w(1))
  have "trim (ws @ 0x43 # ds @ js '' rest'') = 0x43 # ds @ js '' rest''"
    by (rule trim_leading [OF assms(3)]) (simp_all add: is_space_def js_def)
  with np show ?thesis by (simp add: cleanTestCaseTitle_eq i)
qed

theorem cleanTestCaseTitle_leading_space_witness:
  "is_identifier (js ''C1234'') \<and> js ''  '' \<noteq> [] \<and> list_all is_space (js ''  '')
   \<and> cleanTestCaseTitle (js ''  '' @ js ''C1234'' @ js '' rest'') (js ''C1234'') =
       js ''C1234'' @ js '' rest''"
proof -
  have w: "js ''  '' \<noteq> []" "list_all is_space (js ''  '')"
    by (simp_all add: js_def is_space_def)
  from cleanTestCaseTitle_leading_space [OF is_identifier_js(3) w] is_identifier_js(3) w
  show ?thesis by simp
qed

text \<open>
  C6 as stated fails: for the identifier \<^verbatim>\<open>C1234\<close> the result is not the input, it has lost
  the two spaces at its front.
\<close>

theorem two_leading_spaces_are_trimmed:
  "is_identifier (js ''C1234'')
   \<and> cleanTestCaseTitle (js ''  '' @ js ''C1234'' @ js '' rest'') (js ''C1234'') = js ''C1234 rest''
   \<and> cleanTestCaseTitle (js ''  '' @ js ''C1234'' @ js '' rest'') (js ''C1234'')
       \<noteq> js ''  '' @ js ''C1234'' @ js '' rest''"
  by code_simp

text \<open>
  C7. For every raw title and every identifier that does not occur in the cleaned title,
  cleaning is idempotent: cleaning the cleaned title with the same identifier gives the
  cleaned title.
\<close>

theorem cleanTestCaseTitle_idempotent:
  assumes "is_identifier ident"
    and "\<not> sublist ident (cleanTestCaseTitle rawTitle ident)"
  shows "cleanTestCaseTitle (cleanTestCaseTitle rawTitle ident) ident =
    cleanTestCaseTitle rawTitle ident"
proof -
  from assms(2) have "\<not> prefix ident (cleanTestCaseTitle rawTitle ident)"
    using prefix_imp_sublist by blast
  then have "cleanTestCaseTitle (cleanTestCaseTitle rawTitle ident) ident =
    trim (cleanTestCaseTitle rawTitle ident)"
    by (simp add: cleanTestCaseTitle_eq [of "cleanTestCaseTitle rawTitle ident"])
  also have "\<dots> = cleanTestCaseTitle rawTitle ident"
    by (simp add: cleanTestCaseTitle_eq [of rawTitle] trim_trim)
  finally show ?thesis .
qed

theorem cleanTestCaseTitle_idempotent_witness:
  "is_identifier (js ''C12'')
   \<and> \<not> sublist (js ''C12'') (cleanTestCaseTitle (js ''C12  Login  works '') (js ''C12''))
   \<and> cleanTestCaseTitle (cleanTestCaseTitle (js ''C12  Login  works '') (js ''C12'')) (js ''C12'') =
       cleanTestCaseTitle (js ''C12  Login  works '') (js ''C12'')
   \<and> cleanTestCaseTitle (js ''C12  Login  works '') (js ''C12'') = js ''Login  works''"
proof -
  have h: "is_identifier (js ''C12'')" by (rule is_identifier_js)
  have c: "cleanTestCaseTitle (js ''C12  Login  works '') (js ''C12'') = js ''Login  works''"
    by code_simp
  have n: "\<not> sublist (js ''C12'') (cleanTestCaseTitle (js ''C12  Login  works '') (js ''C12''))"
    unfolding c by code_simp
  from cleanTestCaseTitle_idempotent [OF h n] h n c show ?thesis by simp
qed

section \<open>Facts about the pattern of the extractor\<close>

lemma sat_NotQuote: "sat NotQuote = (\<lambda>c. \<not> is_quote c)"
  by (rule ext) simp

lemma rx_match_Star_NotQuote_Quote:
  "rx_match [Star NotQuote, One Quote] b s =
     (case dropWhile (\<lambda>c. \<not> is_quote c) s of
        [] \<Rightarrow> None
      | q # r \<Rightarrow> Some ([takeWhile (\<lambda>c. \<not> is_quote c) s, [q]], r))"
proof (induction s arbitrary: b)
  case Nil
  show ?case by simp
next
  case (Cons c cs)
  show ?case
  proof (cases "is_quote c")
    case True
    then show ?thesis by simp
  next
    case False
    show ?thesis
    proof (cases "dropWhile (\<lambda>c. \<not> is_quote c) cs")
      case Nil
      show ?thesis by (simp add: Cons.IH Nil False del: dropWhile_eq_Nil_conv)
    next
      case (Cons q r)
      show ?thesis by (simp add: Cons.IH Cons False del: dropWhile_eq_Nil_conv)
    qed
  qed
qed

lemma rx_match_Plus_NotQuote_Quote:
  "rx_match [Plus NotQuote, One Quote] b s =
     (case dropWhile (\<lambda>c. \<not> is_quote c) s of
        [] \<Rightarrow> None
      | q # r \<Rightarrow>
          (if takeWhile (\<lambda>c. \<not> is_quote c) s = [] then None
           else Some ([takeWhile (\<lambda>c. \<not> is_quote c) s, [q]], r)))"
proof (cases s)
  case Nil
  then show ?thesis by simp
next
  case (Cons c cs)
  show ?thesis
  proof (cases "is_quote c")
    case True
    then show ?thesis by (simp add: Cons)
  next
    case False
    show ?thesis
    proof (cases "dropWhile (\<lambda>c. \<not> is_quote c) cs")
      case Nil
      show ?thesis
        by (simp add: Cons rx_match_Star_NotQuote_Quote Nil False del: dropWhile_eq_Nil_conv)
    next
      case (Cons q r)
      show ?thesis
        by (simp add: \<open>s = c # cs\<close> rx_match_Star_NotQuote_Quote Cons False
            del: dropWhile_eq_Nil_conv)
    qed
  qed
qed

lemma length_js [simp]: "length (js w) = length w"
  by (simp add: js_def)

lemma rx_match_testRegex:
  "rx_match testRegex b s =
     (if prefix (js ''test('') s
      then (case drop 5 s of
              [] \<Rightarrow> None
            | q # s' \<Rightarrow>
                (if is_quote q
                 then (case dropWhile (\<lambda>c. \<not> is_quote c) s' of
                         [] \<Rightarrow> None
                       | q' # r \<Rightarrow>
                           (if takeWhile (\<lambda>c. \<not> is_quote c) s' = [] then None
                            else Some (map (\<lambda>c. [c]) (js ''test('') @
                                         [[q], takeWhile (\<lambda>c. \<not> is_quote c) s', [q']], r)))
                 else None))
      else None)"
proof (cases "prefix (js ''test('') s")
  case False
  then show ?thesis unfolding testRegex_def rx_match_lits by simp
next
  case True
  have l: "length (js ''test('') = 5" by simp
  show ?thesis
  proof (cases "drop 5 s")
    case Nil
    show ?thesis unfolding testRegex_def rx_match_lits l
      by (simp add: True Nil del: drop_eq_Nil drop_eq_Nil2)
  next
    case (Cons q s')
    show ?thesis
    proof (cases "dropWhile (\<lambda>c. \<not> is_quote c) s'")
      case Nil
      show ?thesis unfolding testRegex_def rx_match_lits l
        by (simp add: True Cons Nil rx_match_Plus_NotQuote_Quote
            del: drop_eq_Nil drop_eq_Nil2 dropWhile_eq_Nil_conv)
    next
      case Cons2: (Cons q' r)
      show ?thesis unfolding testRegex_def rx_match_lits l
        by (simp add: True Cons Cons2 rx_match_Plus_NotQuote_Quote
            del: drop_eq_Nil drop_eq_Nil2 dropWhile_eq_Nil_conv takeWhile_eq_Nil_iff)
    qed
  qed
qed

lemma rx_match_testRegex_iff:
  "rx_match testRegex b s = Some (gs, r) \<longleftrightarrow>
     (\<exists>q t q'. is_quote q \<and> is_quote q' \<and> t \<noteq> [] \<and> list_all (\<lambda>c. \<not> is_quote c) t
        \<and> s = js ''test('' @ q # t @ q' # r
        \<and> gs = map (\<lambda>c. [c]) (js ''test('') @ [[q], t, [q']])"
  (is "?L \<longleftrightarrow> ?R")
proof
  assume L: ?L
  then have p: "prefix (js ''test('') s" by (simp add: rx_match_testRegex split: if_splits)
  then obtain s1 where s: "s = js ''test('' @ s1" by (auto simp: prefix_def)
  then have d: "drop 5 s = s1" by simp
  from L p d obtain q s2 where s1: "s1 = q # s2" and q: "is_quote q"
    by (auto simp: rx_match_testRegex split: list.splits if_splits)
  from L p d s1 q obtain q' where dw: "dropWhile (\<lambda>c. \<not> is_quote c) s2 = q' # r"
    and tw: "takeWhile (\<lambda>c. \<not> is_quote c) s2 \<noteq> []"
    and gs: "gs = map (\<lambda>c. [c]) (js ''test('') @ [[q], takeWhile (\<lambda>c. \<not> is_quote c) s2, [q']]"
    by (auto simp: rx_match_testRegex split: list.splits if_splits)
  have q': "is_quote q'" using hd_dropWhile [of "\<lambda>c. \<not> is_quote c" s2] dw by simp
  have "s2 = takeWhile (\<lambda>c. \<not> is_quote c) s2 @ q' # r"
    using takeWhile_dropWhile_id [of "\<lambda>c. \<not> is_quote c" s2] dw by simp
  moreover have "list_all (\<lambda>c. \<not> is_quote c) (takeWhile (\<lambda>c. \<not> is_quote c) s2)"
    by (auto simp: list_all_iff dest: set_takeWhileD)
  ultimately show ?R using s s1 q q' tw gs by blast
next
  assume ?R
  then obtain q t q' where q: "is_quote q" and q': "is_quote q'" and t: "t \<noteq> []"
    and nqt: "list_all (\<lambda>c. \<not> is_quote c) t" and s: "s = js ''test('' @ q # t @ q' # r"
    and gs: "gs = map (\<lambda>c. [c]) (js ''test('') @ [[q], t, [q']]"
    by blast
  have tw: "takeWhile (\<lambda>c. \<not> is_quote c) (t @ q' # r) = t"
    using nqt q' by (simp add: takeWhile_append2 list_all_iff)
  have dw: "dropWhile (\<lambda>c. \<not> is_quote c) (t @ q' # r) = q' # r"
    using nqt q' by (simp add: dropWhile_append2 list_all_iff)
  show ?L unfolding s gs
    by (simp add: rx_match_testRegex q tw dw t)
qed

lemma test_open_no_quote: "c \<in> set (js ''test('') \<Longrightarrow> \<not> is_quote c"
  by (auto simp: js_def is_quote_def)

lemma opens_literal_iff:
  "opens_literal s \<longleftrightarrow> 5 < length s \<and> take 5 s = js ''test('' \<and> is_quote (s ! 5)"
proof (cases "prefix (js ''test('') s")
  case False
  then have "take 5 s \<noteq> js ''test(''" by (metis take_is_prefix)
  with False show ?thesis unfolding opens_literal_def rx_match_lits by simp
next
  case True
  then obtain s1 where s: "s = js ''test('' @ s1" by (auto simp: prefix_def)
  show ?thesis unfolding opens_literal_def rx_match_lits s
    by (cases s1) (simp_all add: nth_append)
qed

lemma rx_match_testRegex_opens: "rx_match testRegex b s \<noteq> None \<Longrightarrow> opens_literal s"
proof -
  assume "rx_match testRegex b s \<noteq> None"
  then obtain gs r where "rx_match testRegex b s = Some (gs, r)" by auto
  then obtain q t q' where "is_quote q" and "s = js ''test('' @ q # t @ q' # r"
    unfolding rx_match_testRegex_iff by blast
  then show ?thesis by (simp add: opens_literal_iff nth_append)
qed

lemma opens_literal_straddle:
  assumes "g \<noteq> []" and "opens_literal (g @ js ''test('' @ x)"
  shows "opens_literal g"
proof (cases "5 < length g")
  case True
  with assms(2) show ?thesis by (simp add: opens_literal_iff nth_append)
next
  case False
  with assms(1) have k: "5 - length g < 5" by (cases g) auto
  from False have "(g @ js ''test('' @ x) ! 5 = js ''test('' ! (5 - length g)"
    using k by (simp add: nth_append)
  moreover have "js ''test('' ! (5 - length g) \<in> set (js ''test('')"
    using k by (intro nth_mem) simp
  ultimately have "\<not> is_quote ((g @ js ''test('' @ x) ! 5)"
    using test_open_no_quote by metis
  with assms(2) show ?thesis by (simp add: opens_literal_iff)
qed

lemma rx_exec_here: "rx_match p b s = Some (gs, r) \<Longrightarrow> rx_exec p b s = Some ([], gs, r)"
  by (cases s) auto

lemma rx_exec_skip:
  "rx_match p b (c # cs) = None \<Longrightarrow>
   rx_exec p b (c # cs) = map_option (\<lambda>(pre, gs, r). (c # pre, gs, r)) (rx_exec p False cs)"
  by simp

lemma rx_exec_occurrence:
  assumes "no_opening f" and "is_quote q" and "is_quote q'" and "t \<noteq> []"
    and "list_all (\<lambda>c. \<not> is_quote c) t"
  shows "rx_exec testRegex b (f @ js ''test('' @ q # t @ q' # rest) =
    Some (f, map (\<lambda>c. [c]) (js ''test('') @ [[q], t, [q']], rest)"
  using assms(1)
proof (induction f arbitrary: b)
  case Nil
  have "rx_match testRegex b (js ''test('' @ q # t @ q' # rest) =
    Some (map (\<lambda>c. [c]) (js ''test('') @ [[q], t, [q']], rest)"
    unfolding rx_match_testRegex_iff using assms(2-5) by blast
  from rx_exec_here [OF this] show ?case by simp
next
  case (Cons c f)
  then have no: "\<not> opens_literal (c # f)" and nf: "no_opening f" by simp_all
  have "rx_match testRegex b (c # f @ js ''test('' @ q # t @ q' # rest) = None"
  proof (rule ccontr)
    assume "rx_match testRegex b (c # f @ js ''test('' @ q # t @ q' # rest) \<noteq> None"
    then have "opens_literal ((c # f) @ js ''test('' @ q # t @ q' # rest)"
      using rx_match_testRegex_opens by simp
    with no show False using opens_literal_straddle by blast
  qed
  from rx_exec_skip [OF this] show ?case
    by (simp add: Cons.IH [OF nf])
qed

lemma rx_exec_no_opening: "no_opening f \<Longrightarrow> rx_exec testRegex b f = None"
proof (induction f arbitrary: b)
  case Nil
  show ?case by (simp add: rx_match_testRegex js_def)
next
  case (Cons c f)
  then have "\<not> opens_literal (c # f)" and nf: "no_opening f" by simp_all
  then have "rx_match testRegex b (c # f) = None"
    using rx_match_testRegex_opens by blast
  from rx_exec_skip [OF this] show ?case by (simp add: Cons.IH [OF nf])
qed

lemma text_of_Cons:
  "text_of ((f, q, t, q') # segs) rest = f @ js ''test('' @ q # t @ q' # text_of segs rest"
  by (simp add: text_of_def occurrence_def)

lemma literal_simp: "literal (f, q, t, q') = t"
  by (simp add: literal_def)

text \<open>
  An occurrence with an empty literal is no match, and no match begins inside it: the
  search goes on behind it.
\<close>

lemma rx_exec_skip_snd:
  "rx_match p b (c # cs) = None \<Longrightarrow>
   map_option snd (rx_exec p b (c # cs)) = map_option snd (rx_exec p False cs)"
  by (simp add: option.map_comp comp_def case_prod_unfold)

lemma rx_match_testRegex_other:
  "c \<noteq> 0x74 \<Longrightarrow> rx_match testRegex b (c # cs) = None"
  "rx_match testRegex b (0x74 # 0x28 # cs) = None"
  by (simp_all add: testRegex_def lits_def js_def)

lemma rx_exec_empty_literal:
  assumes "no_opening f" and "is_quote q" and "is_quote q'"
  shows "map_option snd (rx_exec testRegex b (f @ js ''test('' @ q # q' # rest)) =
    map_option snd (rx_exec testRegex False rest)"
  using assms(1)
proof (induction f arbitrary: b)
  case Nil
  have e: "js ''test('' @ q # q' # rest = 0x74 # 0x65 # 0x73 # 0x74 # 0x28 # q # q' # rest"
    by (simp add: js_def)
  have 0: "rx_match testRegex b (0x74 # 0x65 # 0x73 # 0x74 # 0x28 # q # q' # rest) = None"
    using assms(2,3) unfolding e [symmetric] by (simp add: rx_match_testRegex)
  have q: "q \<noteq> 0x74" "q' \<noteq> 0x74"
    using assms(2,3) by (auto simp: is_quote_def)
  have "map_option snd (rx_exec testRegex b (0x74 # 0x65 # 0x73 # 0x74 # 0x28 # q # q' # rest)) =
    map_option snd (rx_exec testRegex False (0x65 # 0x73 # 0x74 # 0x28 # q # q' # rest))"
    by (rule rx_exec_skip_snd [OF 0])
  also have "\<dots> = map_option snd (rx_exec testRegex False (0x73 # 0x74 # 0x28 # q # q' # rest))"
    by (rule rx_exec_skip_snd) (simp add: rx_match_testRegex_other)
  also have "\<dots> = map_option snd (rx_exec testRegex False (0x74 # 0x28 # q # q' # rest))"
    by (rule rx_exec_skip_snd) (simp add: rx_match_testRegex_other)
  also have "\<dots> = map_option snd (rx_exec testRegex False (0x28 # q # q' # rest))"
    by (rule rx_exec_skip_snd) (rule rx_match_testRegex_other)
  also have "\<dots> = map_option snd (rx_exec testRegex False (q # q' # rest))"
    by (rule rx_exec_skip_snd) (simp add: rx_match_testRegex_other)
  also have "\<dots> = map_option snd (rx_exec testRegex False (q' # rest))"
    by (rule rx_exec_skip_snd) (simp add: rx_match_testRegex_other q)
  also have "\<dots> = map_option snd (rx_exec testRegex False rest)"
    by (rule rx_exec_skip_snd) (simp add: rx_match_testRegex_other q)
  finally show ?case by (simp add: e)
next
  case (Cons c f)
  then have no: "\<not> opens_literal (c # f)" and nf: "no_opening f" by simp_all
  have "rx_match testRegex b (c # f @ js ''test('' @ q # q' # rest) = None"
  proof (rule ccontr)
    assume "rx_match testRegex b (c # f @ js ''test('' @ q # q' # rest) \<noteq> None"
    then have "opens_literal ((c # f) @ js ''test('' @ q # q' # rest)"
      using rx_match_testRegex_opens by simp
    with no show False using opens_literal_straddle by blast
  qed
  from rx_exec_skip_snd [OF this] show ?case
    by (simp add: Cons.IH [OF nf])
qed

lemma forEachTestMatch_same_exec:
  assumes "map_option snd (rx_exec testRegex b x) = map_option snd (rx_exec testRegex b' y)"
  shows "forEachTestMatch body b x acc = forEachTestMatch body b' y acc"
proof (cases "rx_exec testRegex b x")
  case None
  with assms have "rx_exec testRegex b' y = None" by simp
  with None show ?thesis
    by (simp add: forEachTestMatch.simps [of body b x acc] forEachTestMatch.simps [of body b' y acc])
next
  case (Some u)
  obtain pre gs r where u: "u = (pre, gs, r)" by (cases u)
  from assms Some u obtain pre' where "rx_exec testRegex b' y = Some (pre', gs, r)"
    by (cases "rx_exec testRegex b' y") auto
  with Some u show ?thesis
    by (simp add: forEachTestMatch.simps [of body b x acc] forEachTestMatch.simps [of body b' y acc])
qed

lemma forEachTestMatch_text_of:
  assumes "list_all well_formed segs" and "no_opening rest"
  shows "forEachTestMatch body b (text_of segs rest) acc =
    fold body (filter (\<lambda>t. t \<noteq> []) (map literal segs)) acc"
  using assms(1)
proof (induction segs arbitrary: b acc)
  case Nil
  show ?case
    by (subst forEachTestMatch.simps) (simp add: text_of_def rx_exec_no_opening [OF assms(2)])
next
  case (Cons seg segs)
  obtain f q t q' where seg: "seg = (f, q, t, q')" by (cases seg) auto
  from Cons.prems have "well_formed seg" and rest: "list_all well_formed segs"
    by simp_all
  then have wf: "no_opening f" "is_quote q" "is_quote q'"
    and nq: "list_all (\<lambda>c. \<not> is_quote c) t"
    by (simp_all add: seg well_formed_def)
  show ?case
  proof (cases "t = []")
    case True
    have "forEachTestMatch body b (f @ js ''test('' @ q # q' # text_of segs rest) acc =
      forEachTestMatch body False (text_of segs rest) acc"
      by (rule forEachTestMatch_same_exec) (rule rx_exec_empty_literal [OF wf])
    then show ?thesis
      by (simp add: seg text_of_Cons True Cons.IH [OF rest] literal_simp)
  next
    case False
    have g: "(map (\<lambda>c. [c]) (js ''test('') @ [[q], t, [q']]) ! 6 = t"
      by (simp add: js_def)
    show ?thesis
      by (subst forEachTestMatch.simps)
        (simp add: seg text_of_Cons rx_exec_occurrence [OF wf False nq] g Cons.IH [OF rest]
          literal_simp False)
  qed
qed

lemma testTitles_text_of:
  assumes "list_all well_formed segs" and "no_opening rest"
  shows "testTitles (text_of segs rest) = filter (\<lambda>t. t \<noteq> []) (map literal segs)"
proof -
  have "fold (\<lambda>t ts. ts @ [t]) xs acc = acc @ xs" for xs acc :: "jsstring list"
    by (induction xs arbitrary: acc) auto
  then show ?thesis
    unfolding testTitles_def forEachTestMatch_text_of [OF assms] by simp
qed

section \<open>Facts about the case table\<close>

lemma update_fresh: "k \<notin> fst ` set al \<Longrightarrow> AList.update k v al = al @ [(k, v)]"
  by (induction al) auto

lemma fold_update_fresh:
  "distinct (map fst kvs) \<Longrightarrow> fst ` set kvs \<inter> fst ` set al = {} \<Longrightarrow>
   fold (\<lambda>(k, v). AList.update k v) kvs al = al @ kvs"
proof (induction kvs arbitrary: al)
  case Nil
  show ?case by simp
next
  case (Cons kv kvs)
  obtain k v where kv: "kv = (k, v)" by (cases kv)
  from Cons.prems have k: "k \<notin> fst ` set al" and d: "distinct (map fst kvs)"
    and f: "fst ` set kvs \<inter> fst ` set (al @ [(k, v)]) = {}"
    by (auto simp: kv)
  show ?case using Cons.IH [OF d f] by (simp add: kv update_fresh [OF k])
qed

lemma fold_registerTestCase:
  "fold (registerTestCase rel) ts al = fold (\<lambda>(k, v). AList.update k v) (tableEntries rel ts) al"
  by (induction ts arbitrary: al)
    (simp_all add: tableEntries_def registerTestCase_def split: option.splits)

lemma distinct_fold_update:
  "distinct (map fst al) \<Longrightarrow> distinct (map fst (fold (\<lambda>(k, v). AList.update k v) kvs al))"
  by (induction kvs arbitrary: al) (auto simp: distinct_update)

lemma map_of_fold_update:
  "map_of (fold (\<lambda>(k, v). AList.update k v) kvs al) = map_of al ++ map_of (rev kvs)"
proof (induction kvs arbitrary: al)
  case Nil
  show ?case by simp
next
  case (Cons kv kvs)
  obtain k v where kv: "kv = (k, v)" by (cases kv)
  show ?case
    by (rule ext) (simp add: kv Cons.IH update_conv' map_add_def split: option.splits)
qed

lemma map_of_rev_distinct: "distinct (map fst al) \<Longrightarrow> map_of (rev al) = map_of al"
proof (rule ext)
  fix k
  assume d: "distinct (map fst al)"
  then have d': "distinct (map fst (rev al))" by (simp add: rev_map [symmetric])
  show "map_of (rev al) k = map_of al k"
  proof (cases "map_of al k")
    case None
    then have "k \<notin> fst ` set (rev al)" by (simp add: map_of_eq_None_iff)
    then have "map_of (rev al) k = None" by (metis map_of_eq_None_iff)
    then show ?thesis using None by simp
  next
    case (Some v)
    then have "(k, v) \<in> set (rev al)" using d by simp
    then show ?thesis using Some d' by simp
  qed
qed

lemma forEachTestMatch_fusion:
  assumes "\<And>t acc. h (body t acc) = body' t (h acc)"
  shows "h (forEachTestMatch body b s acc) = forEachTestMatch body' b s (h acc)"
  using assms
proof (induction body b s acc rule: forEachTestMatch.induct)
  case (1 body b content acc)
  show ?case
  proof (cases "rx_exec testRegex b content")
    case None
    show ?thesis
      by (simp add: forEachTestMatch.simps [of body b content acc]
          forEachTestMatch.simps [of body' b content "h acc"] None)
  next
    case (Some x)
    obtain pre gs r where x: "x = (pre, gs, r)" by (cases x)
    have e: "rx_exec testRegex b content = Some (pre, gs, r)" using Some x by simp
    have "h (forEachTestMatch body False r (body (gs ! 6) acc)) =
      forEachTestMatch body' False r (h (body (gs ! 6) acc))"
      by (rule "1.IH" [OF e refl refl "1.prems"])
    then show ?thesis
      by (simp add: forEachTestMatch.simps [of body b content acc]
          forEachTestMatch.simps [of body' b content "h acc"] e "1.prems")
  qed
qed

lemma forEachTestMatch_fold:
  "forEachTestMatch body b s acc = fold body (forEachTestMatch (\<lambda>t ts. ts @ [t]) b s []) acc"
  using forEachTestMatch_fusion
    [of "\<lambda>ts. fold body ts acc" "\<lambda>t ts. ts @ [t]" body b s "[]"]
  by simp

lemma analyzeTestFile_entries:
  "analyzeTestFile rel (Some content) =
     fold (\<lambda>(k, v). AList.update k v) (tableEntries rel (testTitles content)) []"
  unfolding analyzeTestFile_def testTitles_def
  by (simp add: forEachTestMatch_fold [of "registerTestCase rel"] fold_registerTestCase)

lemma distinct_analyzeTestFile: "distinct (map fst (analyzeTestFile rel fc))"
proof (cases fc)
  case None
  then show ?thesis by (simp add: analyzeTestFile_def)
next
  case (Some content)
  show ?thesis unfolding Some analyzeTestFile_entries
    by (rule distinct_fold_update) simp
qed

lemma map_of_analyzeTestFile:
  "map_of (analyzeTestFile rel fc) = map_of (rev (fileEntries (rel, fc)))"
proof (cases fc)
  case None
  then show ?thesis by (simp add: analyzeTestFile_def fileEntries_def)
next
  case (Some content)
  show ?thesis unfolding Some analyzeTestFile_entries map_of_fold_update
    by (simp add: fileEntries_def)
qed

lemma map_of_collect_aux:
  "map_of (fold (\<lambda>(relativePath, file) allTestCases.
             fold (\<lambda>(ident, data) m. AList.update ident data m)
               (analyzeTestFile relativePath file) allTestCases) fs al)
   = map_of al ++ map_of (rev (concat (map fileEntries fs)))"
proof (induction fs arbitrary: al)
  case Nil
  show ?case by simp
next
  case (Cons f fs)
  obtain rel fc where f: "f = (rel, fc)" by (cases f)
  have "map_of (rev (analyzeTestFile rel fc)) = map_of (rev (fileEntries (rel, fc)))"
    using map_of_rev_distinct [OF distinct_analyzeTestFile] map_of_analyzeTestFile by simp
  then show ?case
    by (simp add: f Cons.IH map_of_fold_update map_add_assoc flip: map_of_append)
qed

lemma distinct_collect_aux:
  "distinct (map fst al) \<Longrightarrow>
   distinct (map fst (fold (\<lambda>(relativePath, file) allTestCases.
             fold (\<lambda>(ident, data) m. AList.update ident data m)
               (analyzeTestFile relativePath file) allTestCases) fs al))"
  by (induction fs arbitrary: al) (auto simp: distinct_fold_update)

lemma distinct_collectTestCases: "distinct (map fst (collectTestCases fs))"
  unfolding collectTestCases_def by (rule distinct_collect_aux) simp

lemma tableEntries_append:
  "tableEntries rel (xs @ ys) = tableEntries rel xs @ tableEntries rel ys"
  by (simp add: tableEntries_def)

lemma entries_matchedLiterals:
  "concat (map fileEntries fs) =
     concat (map (\<lambda>(rel, t). tableEntries rel [t]) (matchedLiterals fs))"
proof (induction fs)
  case Nil
  show ?case by (simp add: matchedLiterals_def)
next
  case (Cons f fs)
  obtain rel fc where f: "f = (rel, fc)" by (cases f)
  have t: "tableEntries rel ts = concat (map (\<lambda>(rel, t). tableEntries rel [t]) (map (Pair rel) ts))"
    for ts
    by (induction ts) (simp_all add: tableEntries_def)
  have m: "matchedLiterals (f # fs) =
    (case fc of None \<Rightarrow> [] | Some content \<Rightarrow> map (Pair rel) (testTitles content)) @ matchedLiterals fs"
    by (simp add: matchedLiterals_def f)
  show ?case unfolding m
    using Cons.IH by (cases fc) (simp_all add: f fileEntries_def t matchedLiterals_def)
qed

lemma map_of_collectTestCases:
  "map_of (collectTestCases fs) =
     map_of (rev (concat (map (\<lambda>(rel, t). tableEntries rel [t]) (matchedLiterals fs))))"
  unfolding collectTestCases_def map_of_collect_aux entries_matchedLiterals by simp

lemma filter_key_distinct:
  "distinct (map fst al) \<Longrightarrow> map_of al k = Some v \<Longrightarrow> filter (\<lambda>e. fst e = k) al = [(k, v)]"
proof (induction al)
  case Nil
  then show ?case by simp
next
  case (Cons e al)
  show ?case
  proof (cases "fst e = k")
    case True
    with Cons.prems have "k \<notin> fst ` set al" and "e = (k, v)" by (auto simp: rev_image_eqI)
    then have "filter (\<lambda>e. fst e = k) al = []" by (auto simp: filter_empty_conv)
    with True \<open>e = (k, v)\<close> show ?thesis by simp
  next
    case False
    with Cons show ?thesis by auto
  qed
qed

lemma map_of_rev_last:
  assumes "k \<notin> fst ` set ys"
  shows "map_of (rev (xs @ (k, v) # ys)) k = Some v"
proof -
  have "map_of (rev ys) k = None" using assms by (simp add: map_of_eq_None_iff)
  then show ?thesis by (simp add: map_add_def)
qed

lemma tableEntries_keys:
  "fst ` set (concat (map (\<lambda>(rel, t). tableEntries rel [t]) ls)) =
     {i. \<exists>p t. (p, t) \<in> set ls \<and> findTestId t = Some i}"
proof (induction ls)
  case Nil
  show ?case by simp
next
  case (Cons l ls)
  obtain rel t where l: "l = (rel, t)" by (cases l)
  have "fst ` set (tableEntries rel [t]) = {i. findTestId t = Some i}"
    by (cases "findTestId t") (auto simp: tableEntries_def)
  then show ?case using Cons.IH by (auto simp: l image_Un)
qed

text \<open>
  The keys of the case table are identifiers, each once: the pattern of the normalizer is
  only ever built from a \<^verbatim>\<open>C\<close> and digits.
\<close>

lemma sat_Digit: "sat Digit = is_digit"
  by (rule ext) simp

lemma rx_match_identifier:
  assumes "rx_match [One (Lit 0x43), Plus Digit] b s = Some (gs, r)"
  shows "is_identifier (concat gs)"
proof -
  from assms obtain cs where s: "s = 0x43 # cs"
    and m: "rx_match [Plus Digit] False cs \<noteq> None"
    and g: "gs = [0x43] # fst (the (rx_match [Plus Digit] False cs))"
    by (cases s) (auto split: if_splits)
  from m obtain d ds where cs: "cs = d # ds" and d: "is_digit d"
    by (cases cs) (auto split: if_splits)
  have "fst (the (rx_match [Plus Digit] False cs)) = [d # takeWhile is_digit ds]"
    by (simp add: cs d rx_match_Star_last sat_Digit)
  with g have "concat gs = 0x43 # d # takeWhile is_digit ds" by simp
  moreover have "list_all is_digit (takeWhile is_digit ds)"
    by (auto simp: list_all_iff dest: set_takeWhileD)
  ultimately show ?thesis using d by simp
qed

lemma rx_exec_identifier:
  "rx_exec [One (Lit 0x43), Plus Digit] b s = Some (pre, gs, r) \<Longrightarrow> is_identifier (concat gs)"
proof (induction s arbitrary: b pre)
  case Nil
  then show ?case by simp
next
  case (Cons c cs)
  show ?case
  proof (cases "rx_match [One (Lit 0x43), Plus Digit] b (c # cs)")
    case None
    with Cons.prems obtain pre' where
      "rx_exec [One (Lit 0x43), Plus Digit] False cs = Some (pre', gs, r)"
      by auto
    then show ?thesis by (rule Cons.IH)
  next
    case (Some z)
    with Cons.prems have "rx_match [One (Lit 0x43), Plus Digit] b (c # cs) = Some (gs, r)"
      by (cases z) simp
    then show ?thesis by (rule rx_match_identifier)
  qed
qed

lemma findTestId_is_identifier: "findTestId t = Some i \<Longrightarrow> is_identifier i"
  by (auto simp: findTestId_def split: option.splits dest: rx_exec_identifier)

lemma keys_collectTestCases:
  "fst ` set (collectTestCases fs) =
     {i. \<exists>p t. (p, t) \<in> set (matchedLiterals fs) \<and> findTestId t = Some i}"
proof -
  have "fst ` set (collectTestCases fs) = dom (map_of (collectTestCases fs))"
    by (simp add: dom_map_of_conv_image_fst)
  also have "\<dots> = fst ` set (concat (map (\<lambda>(rel, t). tableEntries rel [t]) (matchedLiterals fs)))"
    unfolding map_of_collectTestCases by (simp add: dom_map_of_conv_image_fst)
  finally show ?thesis unfolding tableEntries_keys .
qed

lemma collectTestCases_keys_identifiers:
  "list_all is_identifier (map fst (collectTestCases fs))"
  using keys_collectTestCases [of fs] findTestId_is_identifier
  by (fastforce simp: list_all_iff)

text \<open>A literal gives no identifier exactly when no \<^verbatim>\<open>C\<close> in it has a digit after it.\<close>

lemma rx_match_identifier_iff:
  "rx_match [One (Lit 0x43), Plus Digit] b s \<noteq> None \<longleftrightarrow>
     (\<exists>d post. s = 0x43 # d # post \<and> is_digit d)"
proof (cases s)
  case Nil
  then show ?thesis by simp
next
  case (Cons c cs)
  show ?thesis
  proof (cases cs)
    case Nil
    then show ?thesis by (simp add: Cons)
  next
    case (Cons d post)
    then show ?thesis
      by (simp add: \<open>s = c # cs\<close> rx_match_Star_last)
  qed
qed

lemma rx_exec_identifier_None_iff:
  "rx_exec [One (Lit 0x43), Plus Digit] b s = None \<longleftrightarrow>
     \<not> (\<exists>pre d post. s = pre @ 0x43 # d # post \<and> is_digit d)"
proof (induction s arbitrary: b)
  case Nil
  show ?case by simp
next
  case (Cons c cs)
  have "(\<exists>pre d post. c # cs = pre @ 0x43 # d # post \<and> is_digit d) \<longleftrightarrow>
    (\<exists>d post. c # cs = 0x43 # d # post \<and> is_digit d) \<or>
    (\<exists>pre d post. cs = pre @ 0x43 # d # post \<and> is_digit d)"
    (is "?A \<longleftrightarrow> ?B \<or> ?C")
  proof
    assume ?A
    then obtain pre d post where e: "c # cs = pre @ 0x43 # d # post" and d: "is_digit d" by blast
    show "?B \<or> ?C"
    proof (cases pre)
      case Nil
      with e d show ?thesis by auto
    next
      case (Cons x pre')
      with e d have "cs = pre' @ 0x43 # d # post" by simp
      with d show ?thesis by blast
    qed
  next
    assume "?B \<or> ?C"
    then show ?A
    proof
      assume ?B
      then show ?A by (metis append_Nil)
    next
      assume ?C
      then obtain pre d post where "cs = pre @ 0x43 # d # post" "is_digit d" by blast
      then have "c # cs = (c # pre) @ 0x43 # d # post \<and> is_digit d" by simp
      then show ?A by blast
    qed
  qed
  moreover have "rx_exec [One (Lit 0x43), Plus Digit] b (c # cs) = None \<longleftrightarrow>
    rx_match [One (Lit 0x43), Plus Digit] b (c # cs) = None \<and>
    rx_exec [One (Lit 0x43), Plus Digit] False cs = None"
    by (cases "rx_match [One (Lit 0x43), Plus Digit] b (c # cs)") auto
  ultimately show ?case
    using Cons.IH [of False] rx_match_identifier_iff [of b "c # cs"] by blast
qed

lemma findTestId_None_iff:
  "findTestId t = None \<longleftrightarrow> \<not> (\<exists>pre d post. t = pre @ 0x43 # d # post \<and> is_digit d)"
  using rx_exec_identifier_None_iff [of True t]
  by (auto simp: findTestId_def split: option.splits)

section \<open>The extractor: claims\<close>

lemma length_tableEntries:
  "length (tableEntries rel ts) = length (filter (\<lambda>t. findTestId t \<noteq> None) ts)"
  by (induction ts) (auto simp: tableEntries_def)

lemma tableEntries_nonempty:
  "tableEntries rel (filter (\<lambda>t. t \<noteq> []) ts) = tableEntries rel ts"
proof -
  have "findTestId [] = None" by (simp add: findTestId_def)
  then show ?thesis by (induction ts) (simp_all add: tableEntries_def)
qed

lemma tableEntries_originalTitle:
  "e \<in> set (tableEntries rel ts) \<Longrightarrow> findTestId (originalTitle (snd e)) = Some (fst e)"
  by (induction ts) (auto simp: tableEntries_def split: option.splits)

text \<open>
  C3 (as the code has it). Take a text that is made of \<open>N + M\<close> occurrences of \<^verbatim>\<open>test(\<close>, a
  quote character, a literal and a quote character, and of text before, between and after
  them, where the literal of each occurrence holds no quote character, single or double
  (it may be empty), and the text before, between and after the occurrences holds no
  \<^verbatim>\<open>test(\<close> with a quote character right after it. Let \<open>N\<close> of the literals hold an
  identifier (a match of \<^verbatim>\<open>C\d+\<close>, as in \<^verbatim>\<open>test('C<digits> ...', ...)\<close>), these identifiers being
  pairwise distinct, and let the other \<open>M\<close> literals hold none. Then the table of the
  extractor has exactly \<open>N\<close> entries, one for each literal with an identifier, in order, and
  no entry comes from one of the \<open>M\<close> literals without. In particular the text
  \<^verbatim>\<open>test('C1234 Login works', () => {})\<close> gives the table that maps \<^verbatim>\<open>C1234\<close> to the title
  \<^verbatim>\<open>Login works\<close> and the original title \<^verbatim>\<open>C1234 Login works\<close>.
\<close>

theorem analyzeTestFile_entries_of_occurrences:
  assumes "list_all well_formed segs" and "no_opening rest"
    and "distinct (map fst (tableEntries rel (map literal segs)))"
  shows "analyzeTestFile rel (Some (text_of segs rest)) = tableEntries rel (map literal segs)
    \<and> length (analyzeTestFile rel (Some (text_of segs rest))) =
        length (filter (\<lambda>seg. findTestId (literal seg) \<noteq> None) segs)
    \<and> length (filter (\<lambda>seg. findTestId (literal seg) \<noteq> None) segs) +
        length (filter (\<lambda>seg. findTestId (literal seg) = None) segs) = length segs
    \<and> (\<forall>seg \<in> set segs. findTestId (literal seg) = None \<longrightarrow>
          (\<forall>e \<in> set (analyzeTestFile rel (Some (text_of segs rest))).
             originalTitle (snd e) \<noteq> literal seg))
    \<and> analyzeTestFile rel (Some (js ''test('C1234 Login works', () => {})'')) =
        [(js ''C1234'', \<lparr>title = js ''Login works'', originalTitle = js ''C1234 Login works'',
                          filePath = rel\<rparr>)]"
proof -
  have t: "analyzeTestFile rel (Some (text_of segs rest)) = tableEntries rel (map literal segs)"
    unfolding analyzeTestFile_entries testTitles_text_of [OF assms(1,2)] tableEntries_nonempty
    using fold_update_fresh [OF assms(3), of "[]"] by simp
  have l: "length (tableEntries rel (map literal segs)) =
    length (filter (\<lambda>seg. findTestId (literal seg) \<noteq> None) segs)"
    by (simp add: length_tableEntries filter_map comp_def)
  have s: "length (filter (\<lambda>seg. findTestId (literal seg) \<noteq> None) segs) +
        length (filter (\<lambda>seg. findTestId (literal seg) = None) segs) = length segs"
    using sum_length_filter_compl [of "\<lambda>seg. findTestId (literal seg) \<noteq> None" segs] by simp
  have n: "\<forall>seg \<in> set segs. findTestId (literal seg) = None \<longrightarrow>
          (\<forall>e \<in> set (tableEntries rel (map literal segs)). originalTitle (snd e) \<noteq> literal seg)"
    using tableEntries_originalTitle by fastforce
  have x: "analyzeTestFile rel (Some (js ''test('C1234 Login works', () => {})'')) =
        [(js ''C1234'', \<lparr>title = js ''Login works'', originalTitle = js ''C1234 Login works'',
                          filePath = rel\<rparr>)]"
    by code_simp
  from t l s n x show ?thesis by simp
qed

theorem analyzeTestFile_entries_of_occurrences_witness:
  "list_all well_formed
     [([], 0x27, js ''C1 one'', 0x27), (js ''); '', 0x22, js ''plain'', 0x22),
      (js ''); '', 0x27, [], 0x27), (js ''); '', 0x27, js ''C2 two'', 0x27)]
   \<and> no_opening (js '');'')
   \<and> text_of [([], 0x27, js ''C1 one'', 0x27), (js ''); '', 0x22, js ''plain'', 0x22),
        (js ''); '', 0x27, [], 0x27), (js ''); '', 0x27, js ''C2 two'', 0x27)] (js '');'') =
       js ''test('C1 one'); test('' @ [0x22] @ js ''plain'' @ [0x22] @ js ''); test('' @
         [0x27, 0x27] @ js ''); test('C2 two');''
   \<and> findTestId (js ''plain'') = None
   \<and> findTestId [] = None
   \<and> analyzeTestFile (js ''a.test.ts'')
        (Some (text_of [([], 0x27, js ''C1 one'', 0x27), (js ''); '', 0x22, js ''plain'', 0x22),
                        (js ''); '', 0x27, [], 0x27), (js ''); '', 0x27, js ''C2 two'', 0x27)]
                 (js '');''))) =
       [(js ''C1'', \<lparr>title = js ''one'', originalTitle = js ''C1 one'', filePath = js ''a.test.ts''\<rparr>),
        (js ''C2'', \<lparr>title = js ''two'', originalTitle = js ''C2 two'', filePath = js ''a.test.ts''\<rparr>)]
   \<and> length (analyzeTestFile (js ''a.test.ts'')
        (Some (text_of [([], 0x27, js ''C1 one'', 0x27), (js ''); '', 0x22, js ''plain'', 0x22),
                        (js ''); '', 0x27, [], 0x27), (js ''); '', 0x27, js ''C2 two'', 0x27)]
                 (js '');'')))) = 2"
proof -
  let ?segs = "[([], 0x27, js ''C1 one'', 0x27), (js ''); '', 0x22, js ''plain'', 0x22),
      (js ''); '', 0x27, [], 0x27), (js ''); '', 0x27, js ''C2 two'', 0x27)] :: segment list"
  have w: "list_all well_formed ?segs" by code_simp
  have r: "no_opening (js '');'')" by code_simp
  have e: "tableEntries (js ''a.test.ts'') (map literal ?segs) =
    [(js ''C1'', \<lparr>title = js ''one'', originalTitle = js ''C1 one'', filePath = js ''a.test.ts''\<rparr>),
     (js ''C2'', \<lparr>title = js ''two'', originalTitle = js ''C2 two'', filePath = js ''a.test.ts''\<rparr>)]"
    by code_simp
  have d: "distinct (map fst (tableEntries (js ''a.test.ts'') (map literal ?segs)))"
    unfolding e by code_simp
  have t: "text_of ?segs (js '');'') =
       js ''test('C1 one'); test('' @ [0x22] @ js ''plain'' @ [0x22] @ js ''); test('' @
         [0x27, 0x27] @ js ''); test('C2 two');''"
    by code_simp
  have p: "findTestId (js ''plain'') = None" "findTestId [] = None" by code_simp+
  from analyzeTestFile_entries_of_occurrences [OF w r d]
  have "analyzeTestFile (js ''a.test.ts'') (Some (text_of ?segs (js '');''))) =
    tableEntries (js ''a.test.ts'') (map literal ?segs)"
    by blast
  with w r e t p show ?thesis by simp
qed

text \<open>
  C3 as stated fails where an earlier literal runs into a later occurrence. In the text
  \<^verbatim>\<open>test('C1 a', f); test('b test('C2 c', g);\<close>, which holds the two calls \<^verbatim>\<open>test('C1 a', f)\<close>
  and \<^verbatim>\<open>test('C2 c', g)\<close> with the distinct identifiers \<^verbatim>\<open>C1\<close> and \<^verbatim>\<open>C2\<close>, the literal left
  open between them ends at the quote that opens the second call: the loop sees the
  literals \<^verbatim>\<open>C1 a\<close> and \<^verbatim>\<open>b test(\<close>, and the table has one entry, not two (the tests of the
  program expect this of malformed syntax). In the text
  \<^verbatim>\<open>test("x's test(", f); test('C2 c', g);\<close>, which holds one call with the identifier \<^verbatim>\<open>C2\<close>
  and one call whose literal holds no identifier but a quote character, the loop sees the
  literals \<^verbatim>\<open>x\<close> and \<^verbatim>\<open>, f); test(\<close>, and the table is empty, not of one entry.
\<close>

theorem occurrence_hidden_by_earlier_literal:
  \<open>sublist (js ''test('C1 a', f)'') (js ''test('C1 a', f); test('b test('C2 c', g);'')
   \<and> sublist (js ''test('C2 c', g)'') (js ''test('C1 a', f); test('b test('C2 c', g);'')
   \<and> findTestId (js ''C1 a'') = Some (js ''C1'')
   \<and> findTestId (js ''C2 c'') = Some (js ''C2'')
   \<and> js ''C1'' \<noteq> js ''C2''
   \<and> testTitles (js ''test('C1 a', f); test('b test('C2 c', g);'') = [js ''C1 a'', js ''b test('']
   \<and> findTestId (js ''b test('') = None
   \<and> analyzeTestFile (js ''a.test.ts'') (Some (js ''test('C1 a', f); test('b test('C2 c', g);'')) =
        [(js ''C1'', \<lparr>title = js ''a'', originalTitle = js ''C1 a'', filePath = js ''a.test.ts''\<rparr>)]
   \<and> length (analyzeTestFile (js ''a.test.ts'')
        (Some (js ''test('C1 a', f); test('b test('C2 c', g);''))) = 1
   \<and> sublist (js ''test("x's test(", f)'') (js ''test("x's test(", f); test('C2 c', g);'')
   \<and> sublist (js ''test('C2 c', g)'') (js ''test("x's test(", f); test('C2 c', g);'')
   \<and> findTestId (js ''x's test('') = None
   \<and> no_opening (js '', f); '') \<and> no_opening (js '', g);'')
   \<and> testTitles (js ''test("x's test(", f); test('C2 c', g);'') = [js ''x'', js '', f); test('']
   \<and> analyzeTestFile (js ''a.test.ts'') (Some (js ''test("x's test(", f); test('C2 c', g);'')) = []\<close>
  by code_simp

text \<open>
  C8. When the same identifier is found in two matched literals, in one file or in two
  files of the scan, and in no matched literal after the second, the case table has
  exactly one entry under the identifier, and it is the record of the later literal (its
  title, its original title, the path of its file). The table of one file is the same
  as that file's own table. Building the table has no failing branch: nothing is reported
  for the duplicate.
\<close>

theorem collectTestCases_last_write_wins:
  assumes "matchedLiterals testFiles = before @ (path1, t1) # between @ (path2, t2) # after"
    and "findTestId t1 = Some ident" and "findTestId t2 = Some ident"
    and "list_all (\<lambda>(p, t). findTestId t \<noteq> Some ident) after"
  shows "filter (\<lambda>e. fst e = ident) (collectTestCases testFiles) =
      [(ident, \<lparr>title = cleanTestCaseTitle t2 ident, originalTitle = t2, filePath = path2\<rparr>)]
    \<and> collectTestCases [(relativePath, fc)] = analyzeTestFile relativePath fc"
proof -
  let ?E = "\<lambda>ls. concat (map (\<lambda>(rel, t). tableEntries rel [t]) ls)"
  let ?v = "\<lparr>title = cleanTestCaseTitle t2 ident, originalTitle = t2, filePath = path2\<rparr>"
  have k: "ident \<notin> fst ` set (?E after)"
    using assms(4) unfolding tableEntries_keys by (auto simp: list_all_iff)
  have eq: "?E (matchedLiterals testFiles) =
    ?E (before @ (path1, t1) # between) @ (ident, ?v) # ?E after"
    unfolding assms(1) by (simp add: tableEntries_def assms(3))
  have "map_of (collectTestCases testFiles) ident = Some ?v"
    unfolding map_of_collectTestCases eq by (rule map_of_rev_last [OF k])
  from filter_key_distinct [OF distinct_collectTestCases this]
  have 1: "filter (\<lambda>e. fst e = ident) (collectTestCases testFiles) = [(ident, ?v)]" .
  have 2: "collectTestCases [(relativePath, fc)] = analyzeTestFile relativePath fc"
    unfolding collectTestCases_def
    using fold_update_fresh [OF distinct_analyzeTestFile, of relativePath fc "[]"] by simp
  from 1 2 show ?thesis by simp
qed

theorem collectTestCases_last_write_wins_witness:
  "matchedLiterals
     [(js ''a.test.ts'', Some (js ''test('C7 first', f); test('C8 other', g)'')),
      (js ''b.test.ts'', Some (js ''test('C7 second', h); test('plain', k)''))] =
     [] @ (js ''a.test.ts'', js ''C7 first'') # [(js ''a.test.ts'', js ''C8 other'')] @
       (js ''b.test.ts'', js ''C7 second'') # [(js ''b.test.ts'', js ''plain'')]
   \<and> findTestId (js ''C7 first'') = Some (js ''C7'')
   \<and> findTestId (js ''C7 second'') = Some (js ''C7'')
   \<and> list_all (\<lambda>(p, t). findTestId t \<noteq> Some (js ''C7'')) [(js ''b.test.ts'', js ''plain'')]
   \<and> filter (\<lambda>e. fst e = js ''C7'')
        (collectTestCases
          [(js ''a.test.ts'', Some (js ''test('C7 first', f); test('C8 other', g)'')),
           (js ''b.test.ts'', Some (js ''test('C7 second', h); test('plain', k)''))]) =
       [(js ''C7'', \<lparr>title = js ''second'', originalTitle = js ''C7 second'',
                      filePath = js ''b.test.ts''\<rparr>)]"
proof -
  have m: "matchedLiterals
     [(js ''a.test.ts'', Some (js ''test('C7 first', f); test('C8 other', g)'')),
      (js ''b.test.ts'', Some (js ''test('C7 second', h); test('plain', k)''))] =
     [] @ (js ''a.test.ts'', js ''C7 first'') # [(js ''a.test.ts'', js ''C8 other'')] @
       (js ''b.test.ts'', js ''C7 second'') # [(js ''b.test.ts'', js ''plain'')]"
    by code_simp
  have 1: "findTestId (js ''C7 first'') = Some (js ''C7'')" by code_simp
  have 2: "findTestId (js ''C7 second'') = Some (js ''C7'')" by code_simp
  have 3: "list_all (\<lambda>(p, t). findTestId t \<noteq> Some (js ''C7'')) [(js ''b.test.ts'', js ''plain'')]"
    by code_simp
  have c: "cleanTestCaseTitle (js ''C7 second'') (js ''C7'') = js ''second''" by code_simp
  from collectTestCases_last_write_wins [OF m 1 2 3] m 1 2 3 c show ?thesis by simp
qed

text \<open>
  C10. The pattern of the extractor matches at a position exactly when the input there is
  \<^verbatim>\<open>test(\<close>, one quote character (single or double), one or more characters that are not
  quote characters, and one quote character; the two quote characters need not be the
  same, and the group is the text between them. So the mismatched \<^verbatim>\<open>test("C1 title'\<close> is
  matched, and an empty literal such as \<^verbatim>\<open>test('')\<close> gives no match.
\<close>

theorem testRegex_quoted_literal:
  \<open>(rx_match testRegex b s = Some (gs, r) \<longleftrightarrow>
      (\<exists>q t q'. is_quote q \<and> is_quote q' \<and> t \<noteq> [] \<and> list_all (\<lambda>c. \<not> is_quote c) t
         \<and> s = js ''test('' @ q # t @ q' # r
         \<and> gs = map (\<lambda>c. [c]) (js ''test('') @ [[q], t, [q']]))
   \<and> rx_match testRegex b (js ''test("C1 title'' @ 0x27 # r') =
       Some (map (\<lambda>c. [c]) (js ''test('') @ [[0x22], js ''C1 title'', [0x27]], r')
   \<and> (is_quote q1 \<and> is_quote q2 \<longrightarrow> rx_match testRegex b (js ''test('' @ q1 # q2 # r'') = None)
   \<and> testTitles (js ''test('' @ [0x27, 0x27] @ js '')'') = []\<close>
proof -
  have 2: \<open>rx_match testRegex b (js ''test("C1 title'' @ 0x27 # r') =
       Some (map (\<lambda>c. [c]) (js ''test('') @ [[0x22], js ''C1 title'', [0x27]], r')\<close>
  proof -
    have \<open>js ''test("C1 title'' @ 0x27 # r' = js ''test('' @ 0x22 # js ''C1 title'' @ 0x27 # r'\<close>
      by (simp add: js_def)
    moreover have "is_quote 0x22" "is_quote 0x27" "list_all (\<lambda>c. \<not> is_quote c) (js ''C1 title'')"
      "js ''C1 title'' \<noteq> []"
      by (simp_all add: is_quote_def js_def)
    ultimately show ?thesis unfolding rx_match_testRegex_iff by blast
  qed
  have 3: "rx_match testRegex b (js ''test('' @ q1 # q2 # r'') = None"
    if "is_quote q1" "is_quote q2"
    using that by (simp add: rx_match_testRegex)
  have 4: "testTitles (js ''test('' @ [0x27, 0x27] @ js '')'') = []" by code_simp
  from rx_match_testRegex_iff [of b s gs r] 2 3 4 show ?thesis by blast
qed

theorem testRegex_quoted_literal_witness:
  \<open>is_quote 0x22 \<and> is_quote 0x27 \<and> js ''C1 title'' \<noteq> []
   \<and> list_all (\<lambda>c. \<not> is_quote c) (js ''C1 title'')
   \<and> rx_match testRegex True (js ''test("C1 title', f)'') =
       Some (map (\<lambda>c. [c]) (js ''test('') @ [[0x22], js ''C1 title'', [0x27]], js '', f)'')
   \<and> rx_match testRegex True (js ''test('' @ 0x27 # 0x27 # js '')'') = None\<close>
proof -
  have q: "is_quote 0x22" "is_quote 0x27" by (simp_all add: is_quote_def)
  have t: "js ''C1 title'' \<noteq> []" "list_all (\<lambda>c. \<not> is_quote c) (js ''C1 title'')"
    by (simp_all add: js_def is_quote_def)
  have s: \<open>js ''test("C1 title', f)'' = js ''test('' @ 0x22 # js ''C1 title'' @ 0x27 # js '', f)''\<close>
    by (simp add: js_def)
  from testRegex_quoted_literal [where b = True and s = \<open>js ''test("C1 title', f)''\<close>
      and gs = "map (\<lambda>c. [c]) (js ''test('') @ [[0x22], js ''C1 title'', [0x27]]"
      and r = "js '', f)''" and ?q1.0 = "0x27" and ?q2.0 = "0x27" and r'' = "js '')''"]
  have i: \<open>rx_match testRegex True (js ''test("C1 title', f)'') =
       Some (map (\<lambda>c. [c]) (js ''test('') @ [[0x22], js ''C1 title'', [0x27]], js '', f)'')
     \<longleftrightarrow> (\<exists>q t q'. is_quote q \<and> is_quote q' \<and> t \<noteq> [] \<and> list_all (\<lambda>c. \<not> is_quote c) t
         \<and> js ''test("C1 title', f)'' = js ''test('' @ q # t @ q' # js '', f)''
         \<and> map (\<lambda>c. [c]) (js ''test('') @ [[0x22], js ''C1 title'', [0x27]] =
             map (\<lambda>c. [c]) (js ''test('') @ [[q], t, [q']])\<close>
    and e: "is_quote 0x27 \<and> is_quote 0x27 \<longrightarrow>
      rx_match testRegex True (js ''test('' @ 0x27 # 0x27 # js '')'') = None"
    by blast+
  have \<open>rx_match testRegex True (js ''test("C1 title', f)'') =
       Some (map (\<lambda>c. [c]) (js ''test('') @ [[0x22], js ''C1 title'', [0x27]], js '', f)'')\<close>
    unfolding i using q t s by blast
  with e q t show ?thesis by simp
qed

section \<open>Facts about the pagination\<close>

lemma map_upt_shift: "map f [0..<Suc n] = f 0 # map (\<lambda>k. f (Suc k)) [0..<n]"
  by (simp add: map_upt_Suc del: upt_Suc)

lemma paginate_run:
  assumes "\<forall>k<n. continues fetch limit (offset + k * limit)"
    and "last_page fetch limit (offset + n * limit)"
  shows "paginate fetch limit offset requests allResults =
    Some (requests @ map (\<lambda>k. offset + k * limit) [0..<Suc n],
          Inr (allResults @ concat (map (\<lambda>k. page fetch (offset + k * limit)) [0..<Suc n])))"
  using assms
proof (induction n arbitrary: offset requests allResults)
  case 0
  then obtain response where r: "fetch offset = Inr response"
    and l: "\<not> has_next response \<or> length (items_of response) < limit"
    by (auto simp: last_page_def split: sum.splits)
  show ?case
    by (subst paginate.simps) (use l in \<open>auto simp: r page_def\<close>)
next
  case (Suc n)
  from Suc.prems(1) have "continues fetch limit offset" by fastforce
  then obtain response where r: "fetch offset = Inr response"
    and c: "has_next response" "limit \<le> length (items_of response)"
    by (auto simp: continues_def split: sum.splits)
  have 1: "\<forall>k<n. continues fetch limit (offset + limit + k * limit)"
  proof (intro allI impI)
    fix k assume "k < n"
    then have "continues fetch limit (offset + Suc k * limit)" using Suc.prems(1) by blast
    then show "continues fetch limit (offset + limit + k * limit)" by (simp add: add.assoc)
  qed
  have 2: "last_page fetch limit (offset + limit + n * limit)"
    using Suc.prems(2) by (simp add: add.assoc)
  have s: "paginate fetch limit offset requests allResults =
    paginate fetch limit (offset + limit) (requests @ [offset]) (allResults @ items_of response)"
    by (subst paginate.simps) (use c in \<open>simp add: r\<close>)
  have m: "map (\<lambda>k. offset + k * limit) [0..<Suc (Suc n)] =
    offset # map (\<lambda>k. offset + limit + k * limit) [0..<Suc n]"
    by (subst map_upt_shift) (simp add: add.assoc)
  have p: "concat (map (\<lambda>k. page fetch (offset + k * limit)) [0..<Suc (Suc n)]) =
    items_of response @ concat (map (\<lambda>k. page fetch (offset + limit + k * limit)) [0..<Suc n])"
    by (subst map_upt_shift) (simp add: add.assoc page_def r)
  show ?case
    unfolding s Suc.IH [OF 1 2] m p by simp
qed

text \<open>When every page continues, the loop never returns.\<close>

lemma paginate_never_returns:
  assumes "\<forall>k. continues fetch limit (k * limit)"
  shows "paginate fetch limit (j * limit) requests allResults = None"
proof (rule ccontr)
  assume "paginate fetch limit (j * limit) requests allResults \<noteq> None"
  then obtain y where y: "paginate fetch limit (j * limit) requests allResults = Some y" by auto
  have "\<not> (\<exists>k. j * limit = k * limit \<and> (\<forall>k. continues fetch limit (k * limit)))"
  proof (rule paginate.raw_induct
      [where P = "\<lambda>f l off rs al z. \<not> (\<exists>k. off = k * l \<and> (\<forall>k. continues f l (k * l)))", OF _ y])
    fix pg :: "(nat \<Rightarrow> api_error + 'a response) \<Rightarrow> nat \<Rightarrow> nat \<Rightarrow> nat list \<Rightarrow> 'a list
      \<Rightarrow> (nat list \<times> (api_error + 'a list)) option"
    fix f :: "nat \<Rightarrow> api_error + 'a response" and l off :: nat and rs :: "nat list"
      and al :: "'a list" and z
    assume IH: "\<And>f l off rs al z. pg f l off rs al = Some z \<Longrightarrow>
        \<not> (\<exists>k. off = k * l \<and> (\<forall>k. continues f l (k * l)))"
      and body: "(case f off of
          Inl error \<Rightarrow> Some (rs @ [off], Inl error)
        | Inr response \<Rightarrow>
            if \<not> has_next response \<or> length (items_of response) < l
            then Some (rs @ [off], Inr (al @ items_of response))
            else pg f l (off + l) (rs @ [off]) (al @ items_of response)) = Some z"
    show "\<not> (\<exists>k. off = k * l \<and> (\<forall>k. continues f l (k * l)))"
    proof
      assume "\<exists>k. off = k * l \<and> (\<forall>k. continues f l (k * l))"
      then obtain k where k: "off = k * l" and c: "\<forall>k. continues f l (k * l)" by blast
      from c k have "continues f l off" by blast
      then obtain response where r: "f off = Inr response"
        and h: "has_next response" "l \<le> length (items_of response)"
        by (auto simp: continues_def split: sum.splits)
      from body r h have "pg f l (off + l) (rs @ [off]) (al @ items_of response) = Some z"
        by simp
      from IH [OF this] have "\<not> (\<exists>k. off + l = k * l \<and> (\<forall>k. continues f l (k * l)))" .
      moreover have "off + l = Suc k * l" using k by simp
      ultimately show False using c by blast
    qed
  qed
  with assms show False by blast
qed

lemma makeApiCallWithPagination_never_returns:
  "\<forall>k. continues fetch limit (k * limit) \<Longrightarrow> makeApiCallWithPagination fetch limit = None"
  using paginate_never_returns [of fetch limit 0 "[]" "[]"]
  by (simp add: makeApiCallWithPagination_def)

section \<open>The pagination: claims\<close>

text \<open>
  C5 (as the code has it). The loop of the pagination asks for another page, with the
  offset increased by the limit, exactly when the list of the current response has at
  least \<open>limit\<close> items and the next-page indicator is present; it ends when the list is
  shorter than the limit or the indicator is absent. When the pages at the offsets \<open>0\<close>,
  \<open>limit\<close>, ... up to \<open>(n - 1) * limit\<close> all continue and the page at \<open>n * limit\<close> is a last
  page, the requests are those at the offsets \<open>0\<close> to \<open>n * limit\<close> and the result is the
  concatenation of the pages in the order of the requests.
\<close>

theorem pagination_requests_and_result:
  assumes "\<forall>k<n. continues fetch limit (k * limit)"
    and "last_page fetch limit (n * limit)"
  shows "makeApiCallWithPagination fetch limit =
      Some (map (\<lambda>k. k * limit) [0..<Suc n],
            Inr (concat (map (\<lambda>k. page fetch (k * limit)) [0..<Suc n])))
    \<and> (fetch offset = Inr response \<longrightarrow>
         paginate fetch limit offset requests allResults =
           (if has_next response \<and> limit \<le> length (items_of response)
            then paginate fetch limit (offset + limit) (requests @ [offset])
                   (allResults @ items_of response)
            else Some (requests @ [offset], Inr (allResults @ items_of response))))"
proof -
  have 1: "makeApiCallWithPagination fetch limit =
      Some (map (\<lambda>k. k * limit) [0..<Suc n],
            Inr (concat (map (\<lambda>k. page fetch (k * limit)) [0..<Suc n])))"
    using paginate_run [of n fetch limit 0 "[]" "[]"] assms
    by (simp add: makeApiCallWithPagination_def)
  have 2: "paginate fetch limit offset requests allResults =
           (if has_next response \<and> limit \<le> length (items_of response)
            then paginate fetch limit (offset + limit) (requests @ [offset])
                   (allResults @ items_of response)
            else Some (requests @ [offset], Inr (allResults @ items_of response)))"
    if "fetch offset = Inr response"
    by (subst paginate.simps) (use that in auto)
  from 1 2 show ?thesis by blast
qed

theorem pagination_requests_and_result_witness:
  "continues three_pages 2 0 \<and> continues three_pages 2 2 \<and> last_page three_pages 2 4
   \<and> makeApiCallWithPagination three_pages 2 = Some ([0, 2, 4], Inr [1, 2, 3, 4, 5])"
proof -
  have c0: "continues three_pages 2 0" and c2: "continues three_pages 2 2"
    by (simp_all add: continues_def three_pages_def)
  have c: "\<forall>k<2. continues three_pages 2 (k * 2)"
    using c0 c2 by (simp add: less_Suc_eq numeral_2_eq_2)
  have l4: "last_page three_pages 2 4"
    by (simp add: last_page_def three_pages_def)
  then have l: "last_page three_pages 2 (2 * 2)" by simp
  have m: "map (\<lambda>k. k * 2) [0..<Suc 2] = [0, 2, 4 :: nat]"
    by (simp add: upt_rec numeral_2_eq_2)
  have p: "concat (map (\<lambda>k. page three_pages (k * 2)) [0..<Suc 2]) = [1, 2, 3, 4, 5]"
    by (simp add: upt_rec numeral_2_eq_2 page_def three_pages_def)
  from pagination_requests_and_result [OF c l] c0 c2 l4 show ?thesis unfolding m p by simp
qed

text \<open>
  C5 as stated fails: with a limit of one, a first response of two items with a next-page
  indicator has a list whose length is not equal to the limit, and the loop still makes
  a second request, at offset one.
\<close>

theorem second_request_after_oversized_page:
  "oversized_pages 0 = Inr (ObjectBody (Some [1, 2]) None True)
   \<and> has_next (ObjectBody (Some [1, 2 :: nat]) None True)
   \<and> length (items_of (ObjectBody (Some [1, 2 :: nat]) None True)) \<noteq> 1
   \<and> makeApiCallWithPagination oversized_pages 1 = Some ([0, 1], Inr [1, 2, 3])"
  by (simp add: makeApiCallWithPagination_def paginate.simps oversized_pages_def)

section \<open>Facts about the comparison and the update\<close>

lemma compareCase_step:
  "lookupCase srv info (fst e) \<noteq> None \<Longrightarrow>
   compareCase srv info e (ds, es) =
     Some (ds @ (case lookupCase srv info (fst e) of
                   Some (Some rc) \<Rightarrow>
                     if cleanTestCaseTitle (case_title rc) (fst e) \<noteq> title (snd e)
                     then [differenceOf e rc] else []
                 | _ \<Rightarrow> []),
           es @ (case lookupCase srv info (fst e) of Some None \<Rightarrow> [errorOf e] | _ \<Rightarrow> []))"
  by (cases e) (auto simp: compareCase_def split: option.splits)

lemma compareAll_result:
  assumes "\<forall>e\<in>set table. lookupCase srv info (fst e) \<noteq> None"
  shows "compareAll srv info table (ds, es) =
    Some (ds @ concat (map (diffsOf srv info) table), es @ concat (map (errsOf srv info) table))"
  using assms
proof (induction table arbitrary: ds es)
  case Nil
  show ?case by simp
next
  case (Cons e table)
  then have 1: "lookupCase srv info (fst e) \<noteq> None"
    and 2: "\<forall>e\<in>set table. lookupCase srv info (fst e) \<noteq> None"
    by simp_all
  show ?case
    by (simp add: compareCase_step [OF 1] Cons.IH [OF 2] diffsOf_def errsOf_def)
qed

lemma id_d_differenceOf: "id_d (differenceOf e rc) = fst e"
  by (cases e) (simp add: differenceOf_def)

lemma id_e_errorOf: "id_e (errorOf e) = fst e"
  by (cases e) (simp add: errorOf_def)

lemma diffsOf_id: "d \<in> set (diffsOf srv info e) \<Longrightarrow> id_d d = fst e"
  by (auto simp: diffsOf_def id_d_differenceOf split: option.splits if_splits)

lemma errsOf_id: "x \<in> set (errsOf srv info e) \<Longrightarrow> id_e x = fst e"
  by (auto simp: errsOf_def id_e_errorOf split: option.splits)

lemma distinct_keys_unique:
  "distinct (map fst t) \<Longrightarrow> (k, v) \<in> set t \<Longrightarrow> (k, v') \<in> set t \<Longrightarrow> v = v'"
  by (metis map_of_eq_Some_iff option.inject)

lemma demo_lookups:
  "lookupCase demo_service demo_project (js ''C77'') = Some None"
  "lookupCase demo_service demo_project (js ''C1234'') =
     Some (Some \<lparr>case_id = 1234, case_title = js ''C1234 Checkout flow v2''\<rparr>)"
  "lookupCase demo_service demo_project (js ''C9'') = Some None"
  by (simp_all add: lookupCase_def getTestRailCase_def demo_service_def demo_project_def js_def
      makeApiCallWithPagination_def paginate.simps)

lemma demo_lookups_return:
  "\<forall>e\<in>set demo_table. lookupCase demo_service demo_project (fst e) \<noteq> None"
  by (simp add: demo_table_def demo_lookups)

lemma updateCalls_fold:
  "updateCalls (fold (updateStep srv) ds rep) =
     updateCalls rep @ map (\<lambda>d. (caseNumber d, fileTitle d)) ds"
  by (induction ds arbitrary: rep) (simp_all add: updateStep_def)

lemma updateCalls_updatePhase:
  "updateCalls (updatePhase srv answer differences) =
     (if differences \<noteq> [] \<and> trim (toLowerCase answer) = js ''y''
      then map (\<lambda>d. (caseNumber d, fileTitle d)) differences else [])"
  by (simp add: updatePhase_def askForConfirmation_def updateCalls_fold)

text \<open>
  When the lookup gives \<^verbatim>\<open>null\<close>: the call fails with a status other than 400 (there may be
  no response at all), or the suites are searched and none lists the case.
\<close>

lemma lookupCase_null_without_400:
  "get_case srv (remove1 0x43 testId) = Inl error \<Longrightarrow> status error \<noteq> Some 400 \<Longrightarrow>
   lookupCase srv projectInfo testId = Some None"
  by (simp add: lookupCase_def getTestRailCase_def)

lemma searchSuites_null:
  assumes "\<forall>suite\<in>set ss. \<exists>requests outcome.
      makeApiCallWithPagination (get_cases srv (project_id projectInfo) suite) 250 =
        Some (requests, outcome)
      \<and> (case outcome of Inl e \<Rightarrow> True
          | Inr cases \<Rightarrow> find (\<lambda>c. toString (case_id c) = caseId) cases = None)"
  shows "searchSuites srv caseId projectInfo ss = Some None"
  using assms
proof (induction ss)
  case Nil
  show ?case by simp
next
  case (Cons suite ss)
  then obtain requests outcome where
    m: "makeApiCallWithPagination (get_cases srv (project_id projectInfo) suite) 250 =
        Some (requests, outcome)"
    and o: "case outcome of Inl e \<Rightarrow> True
          | Inr cases \<Rightarrow> find (\<lambda>c. toString (case_id c) = caseId) cases = None"
    by auto
  from Cons have "searchSuites srv caseId projectInfo ss = Some None" by simp
  with m o show ?case by (cases outcome) simp_all
qed

lemma lookupCase_null_after_400:
  assumes "get_case srv (remove1 0x43 testId) = Inl error" and "status error = Some 400"
    and "\<forall>suite\<in>set (suites projectInfo). \<exists>requests outcome.
      makeApiCallWithPagination (get_cases srv (project_id projectInfo) suite) 250 =
        Some (requests, outcome)
      \<and> (case outcome of Inl e \<Rightarrow> True
          | Inr cases \<Rightarrow> find (\<lambda>c. toString (case_id c) = remove1 0x43 testId) cases = None)"
  shows "lookupCase srv projectInfo testId = Some None"
  using searchSuites_null [OF assms(3)] assms(1,2)
  by (simp add: lookupCase_def getTestRailCase_def)

lemma compareAll_found:
  assumes "\<forall>e\<in>set table. lookupCase srv projectInfo (fst e) \<noteq> None"
    and "distinct (map fst table)"
    and "(testId, fileData) \<in> set table"
    and "lookupCase srv projectInfo testId = Some (Some testRailCase)"
  shows "\<exists>ds es. compareAll srv projectInfo table ([], []) = Some (ds, es)
         \<and> ((\<exists>d\<in>set ds. id_d d = testId) \<longleftrightarrow>
              cleanTestCaseTitle (case_title testRailCase) testId \<noteq> title fileData)
         \<and> (\<forall>d\<in>set ds. id_d d = testId \<longrightarrow> d = differenceOf (testId, fileData) testRailCase)
         \<and> (\<forall>x\<in>set es. id_e x \<noteq> testId)"
proof -
  let ?ds = "concat (map (diffsOf srv projectInfo) table)"
  let ?es = "concat (map (errsOf srv projectInfo) table)"
  let ?c = "cleanTestCaseTitle (case_title testRailCase) testId"
  have r: "compareAll srv projectInfo table ([], []) = Some (?ds, ?es)"
    using compareAll_result [OF assms(1), of "[]" "[]"] by simp
  have own: "diffsOf srv projectInfo (testId, fileData) =
    (if ?c \<noteq> title fileData then [differenceOf (testId, fileData) testRailCase] else [])"
    by (simp add: diffsOf_def assms(4))
  have from_own: "d \<in> set (diffsOf srv projectInfo (testId, fileData))"
    if "d \<in> set ?ds" "id_d d = testId" for d
  proof -
    from that(1) obtain e' where e': "e' \<in> set table" and m: "d \<in> set (diffsOf srv projectInfo e')"
      by auto
    from m that(2) have "fst e' = testId" using diffsOf_id by fastforce
    then have "e' = (testId, fileData)"
      using distinct_keys_unique [OF assms(2) _ assms(3), of "snd e'"] e'
      by (cases e') auto
    with m show ?thesis by simp
  qed
  have a: "(\<exists>d\<in>set ?ds. id_d d = testId) \<longleftrightarrow> ?c \<noteq> title fileData"
  proof
    assume "\<exists>d\<in>set ?ds. id_d d = testId"
    then obtain d where "d \<in> set (diffsOf srv projectInfo (testId, fileData))"
      using from_own by blast
    then show "?c \<noteq> title fileData" by (auto simp: own split: if_splits)
  next
    assume "?c \<noteq> title fileData"
    then have "differenceOf (testId, fileData) testRailCase \<in> set ?ds"
      using assms(3) own by force
    then show "\<exists>d\<in>set ?ds. id_d d = testId"
      using id_d_differenceOf [of "(testId, fileData)" testRailCase] by force
  qed
  have b: "\<forall>d\<in>set ?ds. id_d d = testId \<longrightarrow> d = differenceOf (testId, fileData) testRailCase"
  proof (intro ballI impI)
    fix d assume "d \<in> set ?ds" "id_d d = testId"
    then have "d \<in> set (diffsOf srv projectInfo (testId, fileData))" by (rule from_own)
    then show "d = differenceOf (testId, fileData) testRailCase"
      by (auto simp: own split: if_splits)
  qed
  have c: "\<forall>x\<in>set ?es. id_e x \<noteq> testId"
  proof
    fix x assume "x \<in> set ?es"
    then obtain e' where "e' \<in> set table" and m: "x \<in> set (errsOf srv projectInfo e')" by auto
    from m have "id_e x = fst e'" by (rule errsOf_id)
    moreover from m have "lookupCase srv projectInfo (fst e') = Some None"
      by (auto simp: errsOf_def split: option.splits)
    ultimately show "id_e x \<noteq> testId" using assms(4) by auto
  qed
  from r a b c show ?thesis by blast
qed

lemma compareAll_failed:
  assumes "\<forall>e\<in>set table. lookupCase srv projectInfo (fst e) \<noteq> None"
    and "(testId, fileData) \<in> set table"
    and "lookupCase srv projectInfo testId = Some None"
  shows "\<exists>ds es. compareAll srv projectInfo table ([], []) = Some (ds, es)
         \<and> errorOf (testId, fileData) \<in> set es
         \<and> (\<forall>d\<in>set ds. id_d d \<noteq> testId)
         \<and> ds = concat (map (diffsOf srv projectInfo) table)
         \<and> es = concat (map (errsOf srv projectInfo) table)"
proof -
  have r: "compareAll srv projectInfo table ([], []) =
    Some (concat (map (diffsOf srv projectInfo) table), concat (map (errsOf srv projectInfo) table))"
    using compareAll_result [OF assms(1), of "[]" "[]"] by simp
  have e: "errorOf (testId, fileData) \<in> set (concat (map (errsOf srv projectInfo) table))"
    using assms(2,3) by (force simp: errsOf_def)
  have d: "\<forall>d\<in>set (concat (map (diffsOf srv projectInfo) table)). id_d d \<noteq> testId"
  proof
    fix d assume "d \<in> set (concat (map (diffsOf srv projectInfo) table))"
    then obtain e' where "e' \<in> set table" and m: "d \<in> set (diffsOf srv projectInfo e')" by auto
    from m have "id_d d = fst e'" by (rule diffsOf_id)
    moreover from m have "lookupCase srv projectInfo (fst e') \<noteq> Some None"
      by (auto simp: diffsOf_def split: option.splits)
    ultimately show "id_d d \<noteq> testId" using assms(3) by auto
  qed
  from r e d show ?thesis by blast
qed

section \<open>Comparison and update: claims\<close>

text \<open>
  C1. For a case of the table and the remote case found for its identifier, the comparison
  cleans the remote title with \<open>cleanTestCaseTitle\<close> (the normalizer of the extractor) and
  the identifier of the case, and pushes a difference exactly when the cleaned remote title
  is not equal to the title of the file; the difference carries the cleaned remote title
  and the title of the file. In particular, for the identifier \<^verbatim>\<open>C1234\<close>, the file title
  \<^verbatim>\<open>Checkout flow\<close> and the remote title \<^verbatim>\<open>C1234 Checkout flow v2\<close>, a difference is recorded whose
  \<open>testRailCleanTitle\<close> is \<^verbatim>\<open>Checkout flow v2\<close> and whose \<open>fileTitle\<close> is \<^verbatim>\<open>Checkout flow\<close>. Over a
  whole table (its keys distinct, as those of the case table are) whose lookups all return,
  the differences at the end hold an entry for the identifier exactly when the titles
  differ, and it is that difference.
\<close>

theorem difference_iff_titles_differ:
  assumes "lookupCase srv projectInfo testId = Some (Some testRailCase)"
  shows "compareCase srv projectInfo (testId, fileData) (differences, errors) =
      Some (if cleanTestCaseTitle (case_title testRailCase) testId \<noteq> title fileData
            then differences @ [differenceOf (testId, fileData) testRailCase]
            else differences, errors)
    \<and> testRailCleanTitle (differenceOf (testId, fileData) testRailCase) =
        cleanTestCaseTitle (case_title testRailCase) testId
    \<and> fileTitle (differenceOf (testId, fileData) testRailCase) = title fileData
    \<and> (testId = js ''C1234'' \<and> title fileData = js ''Checkout flow''
          \<and> case_title testRailCase = js ''C1234 Checkout flow v2'' \<longrightarrow>
        (\<exists>d. compareCase srv projectInfo (testId, fileData) (differences, errors) =
                Some (differences @ [d], errors)
            \<and> testRailCleanTitle d = js ''Checkout flow v2''
            \<and> fileTitle d = js ''Checkout flow''))
    \<and> ((testId, fileData) \<in> set table \<and> distinct (map fst table)
          \<and> (\<forall>e\<in>set table. lookupCase srv projectInfo (fst e) \<noteq> None) \<longrightarrow>
        (\<exists>ds es. compareAll srv projectInfo table ([], []) = Some (ds, es)
           \<and> ((\<exists>d\<in>set ds. id_d d = testId) \<longleftrightarrow>
                cleanTestCaseTitle (case_title testRailCase) testId \<noteq> title fileData)
           \<and> (\<forall>d\<in>set ds. id_d d = testId \<longrightarrow> d = differenceOf (testId, fileData) testRailCase)
           \<and> (\<forall>x\<in>set es. id_e x \<noteq> testId)))"
proof -
  let ?c = "cleanTestCaseTitle (case_title testRailCase) testId"
  let ?d = "differenceOf (testId, fileData) testRailCase"
  have 1: "compareCase srv projectInfo (testId, fileData) (differences, errors) =
      Some (if ?c \<noteq> title fileData then differences @ [?d] else differences, errors)"
    by (simp add: compareCase_def assms)
  have 2: "testRailCleanTitle ?d = ?c" "fileTitle ?d = title fileData"
    by (simp_all add: differenceOf_def)
  have 3: "\<exists>d. compareCase srv projectInfo (testId, fileData) (differences, errors) =
                Some (differences @ [d], errors)
            \<and> testRailCleanTitle d = js ''Checkout flow v2''
            \<and> fileTitle d = js ''Checkout flow''"
    if t: "testId = js ''C1234''" "title fileData = js ''Checkout flow''"
      "case_title testRailCase = js ''C1234 Checkout flow v2''"
  proof -
    have v: "cleanTestCaseTitle (js ''C1234 Checkout flow v2'') (js ''C1234'') = js ''Checkout flow v2''"
      by code_simp
    have n: "js ''Checkout flow v2'' \<noteq> js ''Checkout flow''" by code_simp
    from v n t have "?c \<noteq> title fileData" by simp
    with 1 have "compareCase srv projectInfo (testId, fileData) (differences, errors) =
      Some (differences @ [?d], errors)"
      by simp
    moreover from 2 v t have "testRailCleanTitle ?d = js ''Checkout flow v2''"
      "fileTitle ?d = js ''Checkout flow''"
      by simp_all
    ultimately show ?thesis by blast
  qed
  have 4: "\<exists>ds es. compareAll srv projectInfo table ([], []) = Some (ds, es)
           \<and> ((\<exists>d\<in>set ds. id_d d = testId) \<longleftrightarrow> ?c \<noteq> title fileData)
           \<and> (\<forall>d\<in>set ds. id_d d = testId \<longrightarrow> d = ?d)
           \<and> (\<forall>x\<in>set es. id_e x \<noteq> testId)"
    if "(testId, fileData) \<in> set table" "distinct (map fst table)"
      "\<forall>e\<in>set table. lookupCase srv projectInfo (fst e) \<noteq> None"
    by (rule compareAll_found [OF that(3) that(2) that(1) assms])
  from 1 2 3 4 show ?thesis by blast
qed

theorem difference_iff_titles_differ_witness:
  "lookupCase demo_service demo_project (js ''C1234'') =
       Some (Some \<lparr>case_id = 1234, case_title = js ''C1234 Checkout flow v2''\<rparr>)
   \<and> (js ''C1234'', \<lparr>title = js ''Checkout flow'', originalTitle = js ''C1234 Checkout flow'',
                       filePath = js ''a.test.ts''\<rparr>) \<in> set demo_table
   \<and> distinct (map fst demo_table)
   \<and> list_all (\<lambda>e. lookupCase demo_service demo_project (fst e) \<noteq> None) demo_table
   \<and> (\<exists>d. compareCase demo_service demo_project
          (js ''C1234'', \<lparr>title = js ''Checkout flow'', originalTitle = js ''C1234 Checkout flow'',
                           filePath = js ''a.test.ts''\<rparr>) ([], []) = Some ([] @ [d], [])
        \<and> testRailCleanTitle d = js ''Checkout flow v2'' \<and> fileTitle d = js ''Checkout flow'')
   \<and> (\<exists>ds es. compareAll demo_service demo_project demo_table ([], []) = Some (ds, es)
        \<and> (\<exists>d\<in>set ds. id_d d = js ''C1234''))"
proof -
  let ?fd = "\<lparr>title = js ''Checkout flow'', originalTitle = js ''C1234 Checkout flow'',
                       filePath = js ''a.test.ts''\<rparr>"
  let ?rc = "\<lparr>case_id = 1234, case_title = js ''C1234 Checkout flow v2''\<rparr>"
  have 1: "\<forall>e\<in>set demo_table. lookupCase demo_service demo_project (fst e) \<noteq> None"
    by (rule demo_lookups_return)
  have 2: "distinct (map fst demo_table)" by code_simp
  have 3: "(js ''C1234'', ?fd) \<in> set demo_table"
    by (simp add: demo_table_def)
  have 4: "lookupCase demo_service demo_project (js ''C1234'') = Some (Some ?rc)"
    by (rule demo_lookups)
  have c: "cleanTestCaseTitle (js ''C1234 Checkout flow v2'') (js ''C1234'') = js ''Checkout flow v2''"
    by code_simp
  have n: "js ''Checkout flow v2'' \<noteq> js ''Checkout flow''" by code_simp
  note t = difference_iff_titles_differ [OF 4, of ?fd "[]" "[]" demo_table]
  have s: "js ''C1234'' = js ''C1234'' \<and> title ?fd = js ''Checkout flow''
    \<and> case_title ?rc = js ''C1234 Checkout flow v2''"
    by simp
  from t s have a: "\<exists>d. compareCase demo_service demo_project (js ''C1234'', ?fd) ([], []) =
          Some ([] @ [d], [])
        \<and> testRailCleanTitle d = js ''Checkout flow v2'' \<and> fileTitle d = js ''Checkout flow''"
    by blast
  from t 1 2 3 have "\<exists>ds es. compareAll demo_service demo_project demo_table ([], []) = Some (ds, es)
        \<and> ((\<exists>d\<in>set ds. id_d d = js ''C1234'') \<longleftrightarrow>
             cleanTestCaseTitle (case_title ?rc) (js ''C1234'') \<noteq> title ?fd)"
    by blast
  then have b: "\<exists>ds es. compareAll demo_service demo_project demo_table ([], []) = Some (ds, es)
        \<and> (\<exists>d\<in>set ds. id_d d = js ''C1234'')"
    using c n by simp
  from 1 2 3 4 a b show ?thesis by (simp add: list_all_iff)
qed

text \<open>
  C4. A case whose lookup gives \<^verbatim>\<open>null\<close> (the remote case is not found, or the call fails in
  any other way) is pushed to the errors with no change of the differences, and the loop
  goes on with the cases after it; nothing is thrown. Over a whole table whose lookups all
  return (found, or \<^verbatim>\<open>null\<close>), the comparison returns: the errors then hold the case, the
  differences hold no entry for its identifier, and differences and errors are what each
  case of the table gives on its own, in the order of the table.
\<close>

theorem failed_lookup_recorded_run_continues:
  assumes "lookupCase srv projectInfo testId = Some None"
  shows "compareCase srv projectInfo (testId, fileData) (differences, errors) =
      Some (differences, errors @ [errorOf (testId, fileData)])
    \<and> compareAll srv projectInfo ((testId, fileData) # rest) (differences, errors) =
      compareAll srv projectInfo rest (differences, errors @ [errorOf (testId, fileData)])
    \<and> ((testId, fileData) \<in> set table
          \<and> (\<forall>e\<in>set table. lookupCase srv projectInfo (fst e) \<noteq> None) \<longrightarrow>
        (\<exists>ds es. compareAll srv projectInfo table ([], []) = Some (ds, es)
           \<and> errorOf (testId, fileData) \<in> set es
           \<and> (\<forall>d\<in>set ds. id_d d \<noteq> testId)
           \<and> ds = concat (map (diffsOf srv projectInfo) table)
           \<and> es = concat (map (errsOf srv projectInfo) table)))"
proof -
  have 1: "compareCase srv projectInfo (testId, fileData) (differences, errors) =
      Some (differences, errors @ [errorOf (testId, fileData)])"
    by (simp add: compareCase_def assms)
  then have 2: "compareAll srv projectInfo ((testId, fileData) # rest) (differences, errors) =
      compareAll srv projectInfo rest (differences, errors @ [errorOf (testId, fileData)])"
    by simp
  have 3: "\<exists>ds es. compareAll srv projectInfo table ([], []) = Some (ds, es)
           \<and> errorOf (testId, fileData) \<in> set es
           \<and> (\<forall>d\<in>set ds. id_d d \<noteq> testId)
           \<and> ds = concat (map (diffsOf srv projectInfo) table)
           \<and> es = concat (map (errsOf srv projectInfo) table)"
    if "(testId, fileData) \<in> set table"
      "\<forall>e\<in>set table. lookupCase srv projectInfo (fst e) \<noteq> None"
    by (rule compareAll_failed [OF that(2) that(1) assms])
  from 1 2 3 show ?thesis by blast
qed

theorem failed_lookup_recorded_run_continues_witness:
  "lookupCase demo_service demo_project (js ''C77'') = Some None
   \<and> (js ''C77'', \<lparr>title = js ''Login'', originalTitle = js ''C77 Login'',
                     filePath = js ''a.test.ts''\<rparr>) \<in> set demo_table
   \<and> list_all (\<lambda>e. lookupCase demo_service demo_project (fst e) \<noteq> None) demo_table
   \<and> compareAll demo_service demo_project demo_table ([], []) =
       Some ([\<lparr>id_d = js ''C1234'', caseNumber = js ''1234'', filePath_d = js ''a.test.ts'',
                fileTitle = js ''Checkout flow'', fileOriginalTitle = js ''C1234 Checkout flow'',
                testRailTitle = js ''C1234 Checkout flow v2'',
                testRailCleanTitle = js ''Checkout flow v2''\<rparr>],
             [\<lparr>id_e = js ''C77'', filePath_e = js ''a.test.ts'', fileTitle_e = js ''Login''\<rparr>,
              \<lparr>id_e = js ''C9'', filePath_e = js ''b.test.ts'', fileTitle_e = js ''Logout''\<rparr>])"
proof -
  let ?fd = "\<lparr>title = js ''Login'', originalTitle = js ''C77 Login'', filePath = js ''a.test.ts''\<rparr>"
  have 1: "\<forall>e\<in>set demo_table. lookupCase demo_service demo_project (fst e) \<noteq> None"
    by (rule demo_lookups_return)
  have 2: "(js ''C77'', ?fd) \<in> set demo_table"
    by (simp add: demo_table_def)
  have 3: "lookupCase demo_service demo_project (js ''C77'') = Some None"
    by (rule demo_lookups)
  have c: "cleanTestCaseTitle (js ''C1234 Checkout flow v2'') (js ''C1234'') = js ''Checkout flow v2''"
    by code_simp
  have n: "js ''Checkout flow v2'' \<noteq> js ''Checkout flow''" by code_simp
  have r: "remove1 0x43 (js ''C1234'') = js ''1234''" by code_simp
  have d: "concat (map (diffsOf demo_service demo_project) demo_table) =
    [\<lparr>id_d = js ''C1234'', caseNumber = js ''1234'', filePath_d = js ''a.test.ts'',
                fileTitle = js ''Checkout flow'', fileOriginalTitle = js ''C1234 Checkout flow'',
                testRailTitle = js ''C1234 Checkout flow v2'',
                testRailCleanTitle = js ''Checkout flow v2''\<rparr>]"
    by (simp add: demo_table_def diffsOf_def demo_lookups differenceOf_def c n r)
  have e: "concat (map (errsOf demo_service demo_project) demo_table) =
    [\<lparr>id_e = js ''C77'', filePath_e = js ''a.test.ts'', fileTitle_e = js ''Login''\<rparr>,
     \<lparr>id_e = js ''C9'', filePath_e = js ''b.test.ts'', fileTitle_e = js ''Logout''\<rparr>]"
    by (simp add: demo_table_def errsOf_def demo_lookups errorOf_def)
  from failed_lookup_recorded_run_continues [OF 3, of ?fd "[]" "[]" "[]" demo_table] 1 2
  have "\<exists>ds es. compareAll demo_service demo_project demo_table ([], []) = Some (ds, es)
           \<and> ds = concat (map (diffsOf demo_service demo_project) demo_table)
           \<and> es = concat (map (errsOf demo_service demo_project) demo_table)"
    by blast
  then have "compareAll demo_service demo_project demo_table ([], []) =
    Some ([\<lparr>id_d = js ''C1234'', caseNumber = js ''1234'', filePath_d = js ''a.test.ts'',
                fileTitle = js ''Checkout flow'', fileOriginalTitle = js ''C1234 Checkout flow'',
                testRailTitle = js ''C1234 Checkout flow v2'',
                testRailCleanTitle = js ''Checkout flow v2''\<rparr>],
          [\<lparr>id_e = js ''C77'', filePath_e = js ''a.test.ts'', fileTitle_e = js ''Login''\<rparr>,
           \<lparr>id_e = js ''C9'', filePath_e = js ''b.test.ts'', fileTitle_e = js ''Logout''\<rparr>])"
    unfolding d e by auto
  with 1 2 3 show ?thesis by (simp add: list_all_iff)
qed

text \<open>
  C9. When the operator is asked (there are differences), update calls are made if and only
  if the answer, in lower case and trimmed, is exactly \<^verbatim>\<open>y\<close>, and then one call is made for
  each difference; any other answer, \<^verbatim>\<open>yes\<close> among them, makes no update call.
\<close>

theorem update_only_on_y:
  "(differences \<noteq> [] \<longrightarrow>
      (updateCalls (updatePhase srv answer differences) \<noteq> [] \<longleftrightarrow>
       trim (toLowerCase answer) = js ''y''))
   \<and> (differences \<noteq> [] \<and> trim (toLowerCase answer) = js ''y'' \<longrightarrow>
        updateCalls (updatePhase srv answer differences) =
          map (\<lambda>d. (caseNumber d, fileTitle d)) differences)
   \<and> (trim (toLowerCase answer) \<noteq> js ''y'' \<longrightarrow>
        updateCalls (updatePhase srv answer differences) = [])
   \<and> (main srv projectInfo testFiles answer = Some (ds, es, report) \<longrightarrow>
        (updateCalls report \<noteq> [] \<longleftrightarrow> ds \<noteq> [] \<and> trim (toLowerCase answer) = js ''y''))
   \<and> \<not> askForConfirmation (js ''yes'')
   \<and> updateCalls (updatePhase srv (js ''yes'') differences) = []
   \<and> askForConfirmation (js ''y'') \<and> askForConfirmation (js '' Y '')"
proof -
  have y: "trim (toLowerCase (js ''yes'')) \<noteq> js ''y''" by code_simp
  have 1: "\<not> askForConfirmation (js ''yes'')" by code_simp
  have 2: "askForConfirmation (js ''y'')" "askForConfirmation (js '' Y '')" by code_simp+
  have m: "updateCalls report \<noteq> [] \<longleftrightarrow> ds \<noteq> [] \<and> trim (toLowerCase answer) = js ''y''"
    if "main srv projectInfo testFiles answer = Some (ds, es, report)"
  proof -
    from that have "report = updatePhase srv answer ds"
      by (auto simp: main_def split: option.splits)
    then show ?thesis by (simp add: updateCalls_updatePhase)
  qed
  show ?thesis
    using y 1 2 m by (simp add: updateCalls_updatePhase)
qed

theorem update_only_on_y_witness:
  "[differenceOf (js ''C1234'', \<lparr>title = js ''Checkout flow'', originalTitle = js ''C1234 Checkout flow'',
        filePath = js ''a.test.ts''\<rparr>) \<lparr>case_id = 1234, case_title = js ''C1234 Checkout flow v2''\<rparr>] \<noteq> []
   \<and> trim (toLowerCase (js '' Y '')) = js ''y''
   \<and> updateCalls (updatePhase demo_service (js '' Y '')
        [differenceOf (js ''C1234'', \<lparr>title = js ''Checkout flow'',
           originalTitle = js ''C1234 Checkout flow'', filePath = js ''a.test.ts''\<rparr>)
           \<lparr>case_id = 1234, case_title = js ''C1234 Checkout flow v2''\<rparr>]) =
       [(js ''1234'', js ''Checkout flow'')]
   \<and> trim (toLowerCase (js ''yes'')) \<noteq> js ''y''
   \<and> updateCalls (updatePhase demo_service (js ''yes'')
        [differenceOf (js ''C1234'', \<lparr>title = js ''Checkout flow'',
           originalTitle = js ''C1234 Checkout flow'', filePath = js ''a.test.ts''\<rparr>)
           \<lparr>case_id = 1234, case_title = js ''C1234 Checkout flow v2''\<rparr>]) = []"
proof -
  let ?d = "differenceOf (js ''C1234'', \<lparr>title = js ''Checkout flow'',
           originalTitle = js ''C1234 Checkout flow'', filePath = js ''a.test.ts''\<rparr>)
           \<lparr>case_id = 1234, case_title = js ''C1234 Checkout flow v2''\<rparr>"
  have y: "trim (toLowerCase (js '' Y '')) = js ''y''" by code_simp
  have n: "trim (toLowerCase (js ''yes'')) \<noteq> js ''y''" by code_simp
  have v: "map (\<lambda>d. (caseNumber d, fileTitle d)) [?d] = [(js ''1234'', js ''Checkout flow'')]"
    by code_simp
  from update_only_on_y [of "[?d]" demo_service "js '' Y ''"] y v
  have a: "updateCalls (updatePhase demo_service (js '' Y '') [?d]) =
    [(js ''1234'', js ''Checkout flow'')]"
    by simp
  from update_only_on_y [of "[?d]" demo_service "js ''yes''"] n
  have b: "updateCalls (updatePhase demo_service (js ''yes'') [?d]) = []"
    by blast
  from y n a b show ?thesis by simp
qed

end
